theory Spec2Isabelle
  imports Main "HOL-Library.Monad_Syntax"
begin

section \<open>The aesdchar driver: kernel memory, device state, read and write\<close>

text \<open>
  A shallow embedding of \<^verbatim>\<open>main.c\<close> (the AESD character driver). Kernel memory is an
  explicit store of allocated blocks, so that \<^verbatim>\<open>kmalloc\<close>, \<^verbatim>\<open>kfree\<close> and
  \<^verbatim>\<open>memcpy\<close> are visible; a function of the driver returns \<open>None\<close> when it would
  access memory that is not allocated (undefined behaviour in C), and otherwise its
  \<^verbatim>\<open>ssize_t\<close> return value together with everything it may have changed.

  What the environment decides is an input of the model: whether the wait for the mutex
  is interrupted, what each \<^verbatim>\<open>kmalloc\<close> returns, and how much user memory is
  accessible behind the caller's pointer.

  Sizes (\<^verbatim>\<open>size_t\<close>) are natural numbers. The sums the driver forms
  (\<^verbatim>\<open>partial_write_size + newline_offset + 1\<close>, \<^verbatim>\<open>partial_write_size + count\<close>)
  add the lengths of two buffers that are allocated at the same time, so they stay
  below \<open>2 ^ 64\<close>; the one subtraction is written with its wrap-around.
\<close>

subsection \<open>Kernel memory\<close>

type_synonym addr = nat

type_synonym heap = "addr \<Rightarrow> char list option"

datatype errno = EFAULT | ENOMEM | ERESTARTSYS

text \<open>A \<^verbatim>\<open>ssize_t\<close> result: \<open>Inl e\<close> is \<open>-e\<close>, \<open>Inr n\<close> a byte count.\<close>

type_synonym ssize_t = "errno + nat"

text \<open>
  \<^verbatim>\<open>kmalloc(n, GFP_KERNEL)\<close>: the allocator's answer \<open>r\<close> is given by the environment,
  \<open>None\<close> for \<^verbatim>\<open>NULL\<close>. The new block has \<open>n\<close> bytes; the driver overwrites all of
  them before it reads any, so their initial value (here zero) is never seen.
\<close>

definition kmalloc :: "addr option \<Rightarrow> nat \<Rightarrow> heap \<Rightarrow> addr option \<times> heap" where
  "kmalloc r n h =
     (case r of
        None \<Rightarrow> (None, h)
      | Some a \<Rightarrow> (Some a, h(a \<mapsto> replicate n (CHR 0x00))))"

text \<open>\<^verbatim>\<open>kfree(a)\<close> for a non-null \<open>a\<close>; freeing a block that is not allocated is undefined.\<close>

definition kfree :: "addr \<Rightarrow> heap \<Rightarrow> heap option" where
  "kfree a h = (case h a of None \<Rightarrow> None | Some bl \<Rightarrow> Some (h(a := None)))"

text \<open>Reading \<open>n\<close> bytes at \<open>a + off\<close>, and writing \<open>bs\<close> at \<open>a + off\<close>, inside one block.\<close>

definition load :: "heap \<Rightarrow> addr \<Rightarrow> nat \<Rightarrow> nat \<Rightarrow> char list option" where
  "load h a off n =
     (case h a of
        None \<Rightarrow> None
      | Some bl \<Rightarrow> if off + n \<le> length bl then Some (take n (drop off bl)) else None)"

definition store :: "heap \<Rightarrow> addr \<Rightarrow> nat \<Rightarrow> char list \<Rightarrow> heap option" where
  "store h a off bs =
     (case h a of
        None \<Rightarrow> None
      | Some bl \<Rightarrow>
          if off + length bs \<le> length bl
          then Some (h(a \<mapsto> take off bl @ bs @ drop (off + length bs) bl))
          else None)"

text \<open>\<^verbatim>\<open>memcpy(dst + doff, src, n)\<close>.\<close>

definition memcpy :: "addr \<Rightarrow> nat \<Rightarrow> addr \<Rightarrow> nat \<Rightarrow> heap \<Rightarrow> heap option" where
  "memcpy dst doff src n h = do { bs \<leftarrow> load h src 0 n; store h dst doff bs }"

text \<open>
  \<^verbatim>\<open>memchr(s, c, n)\<close> on the \<open>n\<close> bytes \<open>bs\<close>: the offset of the first \<open>c\<close>, or \<open>None\<close>
  for \<^verbatim>\<open>NULL\<close>.
\<close>

fun memchr :: "char list \<Rightarrow> char \<Rightarrow> nat option" where
  "memchr [] c = None"
| "memchr (x # xs) c = (if x = c then Some 0 else map_option Suc (memchr xs c))"

subsection \<open>User memory\<close>

text \<open>
  A user pointer is \<open>None\<close> when it is \<^verbatim>\<open>NULL\<close>, and otherwise the bytes of user memory
  that are accessible from it on. \<^verbatim>\<open>copy_from_user(to, from, n)\<close> returns the number of
  bytes it could not copy (and pads the kernel buffer with zeros);
  \<^verbatim>\<open>copy_to_user(to, from, n)\<close> returns the number of bytes it could not copy and the
  user memory afterwards.
\<close>

definition copy_from_user :: "addr \<Rightarrow> char list \<Rightarrow> nat \<Rightarrow> heap \<Rightarrow> (nat \<times> heap) option" where
  "copy_from_user to ubytes n h =
     (let k = min n (length ubytes) in
      do { h' \<leftarrow> store h to 0 (take k ubytes @ replicate (n - k) (CHR 0x00));
           Some (n - k, h') })"

definition copy_to_user :: "char list \<Rightarrow> char list \<Rightarrow> nat \<times> char list" where
  "copy_to_user ubuf bs =
     (let k = min (length bs) (length ubuf) in (length bs - k, take k bs @ drop k ubuf))"

subsection \<open>Device state\<close>

text \<open>
  Modelled from the spec: \<^verbatim>\<open>struct aesd_buffer_entry\<close> is declared in the header
  \<^verbatim>\<open>aesd-circular-buffer.h\<close>, which is not among the sources. An entry is one stored
  command; \<^verbatim>\<open>main.c\<close> assigns its fields \<^verbatim>\<open>buffptr\<close> (the block that holds the
  bytes) and \<^verbatim>\<open>size\<close>.
\<close>

record aesd_buffer_entry =
  buffptr :: "addr option"
  size_entry :: nat

text \<open>
  Modelled from the spec: the macro \<^verbatim>\<open>AESDCHAR_MAX_WRITE_OPERATIONS_SUPPORTED\<close> is defined
  in the same header. It is the capacity of the ring log, "default 10".
\<close>

definition AESDCHAR_MAX_WRITE_OPERATIONS_SUPPORTED :: nat where
  "AESDCHAR_MAX_WRITE_OPERATIONS_SUPPORTED = 10"

text \<open>
  Modelled from the spec: \<^verbatim>\<open>struct aesd_circular_buffer\<close> is declared in the same header.
  The ring log is "a fixed-capacity circular sequence of Entry slots, plus \<open>write_index\<close>
  (next slot to fill) and \<open>full\<close> flag"; \<^verbatim>\<open>main.c\<close> reads them as \<^verbatim>\<open>entry\<close>,
  \<^verbatim>\<open>in_offs\<close> and \<^verbatim>\<open>full\<close>.
\<close>

record aesd_circular_buffer =
  entry :: "aesd_buffer_entry list"
  in_offs :: nat
  full :: bool

text \<open>
  Modelled from the spec: \<^verbatim>\<open>struct aesd_dev\<close> is declared in \<^verbatim>\<open>aesdchar.h\<close>, which is not
  among the sources. The device state "aggregates Ring Log + Pending Buffer + Access
  Guard"; the fields are those \<^verbatim>\<open>main.c\<close> uses. The mutex is not a field: the outcome
  of \<^verbatim>\<open>mutex_lock_interruptible\<close> is an input of each call, and \<^verbatim>\<open>mutex_unlock\<close>
  changes nothing the model keeps.
\<close>

record aesd_dev =
  circular_buffer :: aesd_circular_buffer
  partial_write_buffer :: "addr option"
  partial_write_size :: nat

text \<open>The global \<^verbatim>\<open>aesd_device\<close> and the kernel memory.\<close>

record kstate =
  aesd_device :: aesd_dev
  kheap :: heap

text \<open>The only \<^verbatim>\<open>struct aesd_dev\<close> there is; \<^verbatim>\<open>filp->private_data\<close> is null or points to it.\<close>

datatype dev_ref = Aesd_device

record struct_file =
  private_data :: "dev_ref option"

definition aesd_open :: "struct_file \<Rightarrow> int \<times> struct_file" where
  "aesd_open filp = (0, filp\<lparr>private_data := Some Aesd_device\<rparr>)"

definition aesd_release :: "struct_file \<Rightarrow> int" where
  "aesd_release filp = 0"

text \<open>
  The device after \<^verbatim>\<open>aesd_init_module\<close>: \<^verbatim>\<open>memset\<close> sets every field to zero (all
  slots empty, \<^verbatim>\<open>in_offs\<close> 0, \<^verbatim>\<open>full\<close> false), and there is no partial write.
\<close>

definition aesd_init_module :: aesd_dev where
  "aesd_init_module =
     \<lparr>circular_buffer =
        \<lparr>entry = replicate AESDCHAR_MAX_WRITE_OPERATIONS_SUPPORTED
                   \<lparr>buffptr = None, size_entry = 0\<rparr>,
         in_offs = 0, full = False\<rparr>,
      partial_write_buffer = None,
      partial_write_size = 0\<rparr>"

subsection \<open>The ring log\<close>

text \<open>
  Modelled from the spec: \<^verbatim>\<open>aesd_circular_buffer_add_entry\<close> is not among the sources.
  "Overwriting that slot with the new Entry; advance \<open>write_index\<close> modulo \<open>C\<close>; set
  \<open>full = true\<close> once \<open>write_index\<close> wraps past the slot it started filling from": the
  ring starts filling at slot 0. Releasing the overwritten entry is done by the caller
  (\<^verbatim>\<open>aesd_write\<close>).
\<close>

definition aesd_circular_buffer_add_entry ::
    "aesd_circular_buffer \<Rightarrow> aesd_buffer_entry \<Rightarrow> aesd_circular_buffer" where
  "aesd_circular_buffer_add_entry buffer add_entry =
     (let next = (in_offs buffer + 1) mod AESDCHAR_MAX_WRITE_OPERATIONS_SUPPORTED in
      buffer\<lparr>entry := (entry buffer)[in_offs buffer := add_entry],
             in_offs := next,
             full := (full buffer \<or> next = 0)\<rparr>)"

text \<open>
  Modelled from the spec: the slots of the live entries, oldest first. A full ring holds
  all slots, the oldest at \<open>in_offs\<close>; a ring that is not full holds the slots below
  \<open>in_offs\<close>.
\<close>

definition live_slots :: "aesd_circular_buffer \<Rightarrow> nat list" where
  "live_slots buffer =
     (if full buffer
      then [in_offs buffer ..< AESDCHAR_MAX_WRITE_OPERATIONS_SUPPORTED] @ [0 ..< in_offs buffer]
      else [0 ..< in_offs buffer])"

text \<open>
  Modelled from the spec: \<^verbatim>\<open>aesd_circular_buffer_find_entry_offset_for_fpos\<close> is not
  among the sources. "Walk entries in that order, accumulating sizes; the target entry is
  the first whose cumulative size exceeds \<open>globalOffset\<close>; \<open>offsetWithinEntry =
  globalOffset - (cumulative size before that entry)\<close>. If \<open>globalOffset >= total logical
  length\<close>, resolution fails." The result is the slot of the entry and the offset in it.
\<close>

fun walk_entries :: "aesd_buffer_entry list \<Rightarrow> nat list \<Rightarrow> nat \<Rightarrow> (nat \<times> nat) option" where
  "walk_entries es [] char_offset = None"
| "walk_entries es (i # slots) char_offset =
     (if char_offset < size_entry (es ! i) then Some (i, char_offset)
      else walk_entries es slots (char_offset - size_entry (es ! i)))"

text \<open>
  Modelled from the spec: the walk over the live entries of the ring, oldest first;
  \<open>None\<close> is the \<^verbatim>\<open>NULL\<close> the function returns when resolution fails.
\<close>

definition aesd_circular_buffer_find_entry_offset_for_fpos ::
    "aesd_circular_buffer \<Rightarrow> nat \<Rightarrow> (nat \<times> nat) option" where
  "aesd_circular_buffer_find_entry_offset_for_fpos buffer char_offset =
     walk_entries (entry buffer) (live_slots buffer) char_offset"

text \<open>Reading the slot \<open>entry[i]\<close>; outside the array the access is undefined.\<close>

definition slot :: "aesd_circular_buffer \<Rightarrow> nat \<Rightarrow> aesd_buffer_entry option" where
  "slot buffer i = (if i < length (entry buffer) then Some (entry buffer ! i) else None)"

subsection \<open>\<^verbatim>\<open>aesd_read\<close>\<close>

text \<open>
  \<^verbatim>\<open>loff_t\<close> is a signed 64-bit integer; passing \<^verbatim>\<open>*f_pos\<close> as the \<^verbatim>\<open>size_t\<close>
  argument converts it modulo \<open>2 ^ 64\<close>. \<^verbatim>\<open>size_t\<close> subtraction wraps around.
\<close>

definition size_t_of_loff_t :: "int \<Rightarrow> nat" where
  "size_t_of_loff_t x = nat (x mod 2 ^ 64)"

definition size_t_sub :: "nat \<Rightarrow> nat \<Rightarrow> nat" where
  "size_t_sub a b = (if b \<le> a then a - b else a + 2 ^ 64 - b)"

text \<open>
  The call \<^verbatim>\<open>aesd_read(filp, buf, count, f_pos)\<close>: \<open>interrupted\<close> says that
  \<^verbatim>\<open>mutex_lock_interruptible\<close> returns non-zero. The result is the return value, the
  caller's \<^verbatim>\<open>*f_pos\<close>, the user memory at \<^verbatim>\<open>buf\<close> and the kernel state.
  \<^verbatim>\<open>*f_pos += bytes_to_read\<close> is reached only when the offset resolved to an entry, so
  the sum is at most the total size of the live entries and does not overflow.
\<close>

definition aesd_read ::
    "struct_file \<Rightarrow> char list option \<Rightarrow> nat \<Rightarrow> int \<Rightarrow> bool \<Rightarrow> kstate
       \<Rightarrow> (ssize_t \<times> int \<times> char list option \<times> kstate) option" where
  "aesd_read filp buf count f_pos interrupted s =
     (if private_data filp = None \<or> buf = None then Some (Inl EFAULT, f_pos, buf, s)
      else if interrupted then Some (Inl ERESTARTSYS, f_pos, buf, s)
      else
        let buffer = circular_buffer (aesd_device s) in
        case aesd_circular_buffer_find_entry_offset_for_fpos buffer (size_t_of_loff_t f_pos) of
          None \<Rightarrow> Some (Inr 0, f_pos, buf, s)
        | Some (i, entry_offset_byte) \<Rightarrow>
            do {
              e \<leftarrow> slot buffer i;
              case buffptr e of
                None \<Rightarrow> Some (Inr 0, f_pos, buf, s)
              | Some p \<Rightarrow>
                  do {
                    let bytes_to_read = size_t_sub (size_entry e) entry_offset_byte;
                    let bytes_to_read = (if bytes_to_read > count then count else bytes_to_read);
                    bs \<leftarrow> load (kheap s) p entry_offset_byte bytes_to_read;
                    let (not_copied, ubuf) = copy_to_user (the buf) bs;
                    if not_copied \<noteq> 0 then Some (Inl EFAULT, f_pos, Some ubuf, s)
                    else Some (Inr bytes_to_read, f_pos + int bytes_to_read, Some ubuf, s)
                  }
            })"

subsection \<open>\<^verbatim>\<open>aesd_write\<close>\<close>

text \<open>What the environment decides during one call of \<^verbatim>\<open>aesd_write\<close>.\<close>

record write_env =
  lock_interrupted :: bool
  kmalloc_write_buffer :: "addr option"
  kmalloc_grown :: "addr option"

text \<open>
  The branch "found newline - complete command" (lines 139 to 183), entered with the
  chunk in the block \<open>write_buffer\<close>.
\<close>

definition aesd_write_complete ::
    "addr \<Rightarrow> nat \<Rightarrow> int \<Rightarrow> write_env \<Rightarrow> kstate \<Rightarrow> (ssize_t \<times> int \<times> kstate) option" where
  "aesd_write_complete write_buffer newline_offset f_pos env s =
     (let dev = aesd_device s;
          total_size = partial_write_size dev + newline_offset + 1
      in
      case kmalloc (kmalloc_grown env) total_size (kheap s) of
        (None, h) \<Rightarrow>
          do { h \<leftarrow> kfree write_buffer (kheap s); Some (Inl ENOMEM, f_pos, s\<lparr>kheap := h\<rparr>) }
      | (Some complete_buffer, h0) \<Rightarrow>
          do {
            h1 \<leftarrow> (case partial_write_buffer dev of
                    None \<Rightarrow> Some h0
                  | Some p \<Rightarrow>
                      if partial_write_size dev > 0
                      then memcpy complete_buffer 0 p (partial_write_size dev) h0
                      else Some h0);
            h2 \<leftarrow> memcpy complete_buffer (partial_write_size dev) write_buffer
                    (newline_offset + 1) h1;
            (dev1, h3) \<leftarrow> (case partial_write_buffer dev of
                            None \<Rightarrow> Some (dev, h2)
                          | Some p \<Rightarrow>
                              do { h \<leftarrow> kfree p h2;
                                   Some (dev\<lparr>partial_write_buffer := None,
                                              partial_write_size := 0\<rparr>, h) });
            let new_entry = \<lparr>buffptr = Some complete_buffer, size_entry = total_size\<rparr>;
            let buffer = circular_buffer dev1;
            h4 \<leftarrow> (if full buffer
                   then do { old_entry \<leftarrow> slot buffer (in_offs buffer);
                             case buffptr old_entry of
                               None \<Rightarrow> Some h3
                             | Some q \<Rightarrow> kfree q h3 }
                   else Some h3);
            let dev2 = dev1\<lparr>circular_buffer := aesd_circular_buffer_add_entry buffer new_entry\<rparr>;
            h5 \<leftarrow> kfree write_buffer h4;
            Some (Inr (newline_offset + 1), f_pos, \<lparr>aesd_device = dev2, kheap = h5\<rparr>)
          })"

text \<open>The branch "no newline - append to partial write" (lines 185 to 207).\<close>

definition aesd_write_partial ::
    "addr \<Rightarrow> nat \<Rightarrow> int \<Rightarrow> write_env \<Rightarrow> kstate \<Rightarrow> (ssize_t \<times> int \<times> kstate) option" where
  "aesd_write_partial write_buffer count f_pos env s =
     (let dev = aesd_device s;
          new_partial_size = partial_write_size dev + count
      in
      case kmalloc (kmalloc_grown env) new_partial_size (kheap s) of
        (None, h) \<Rightarrow>
          do { h \<leftarrow> kfree write_buffer (kheap s); Some (Inl ENOMEM, f_pos, s\<lparr>kheap := h\<rparr>) }
      | (Some new_partial_buffer, h0) \<Rightarrow>
          do {
            h1 \<leftarrow> (case partial_write_buffer dev of
                    None \<Rightarrow> Some h0
                  | Some p \<Rightarrow>
                      if partial_write_size dev > 0
                      then do { h \<leftarrow> memcpy new_partial_buffer 0 p (partial_write_size dev) h0;
                                kfree p h }
                      else Some h0);
            h2 \<leftarrow> memcpy new_partial_buffer (partial_write_size dev) write_buffer count h1;
            let dev1 = dev\<lparr>partial_write_buffer := Some new_partial_buffer,
                           partial_write_size := new_partial_size\<rparr>;
            h3 \<leftarrow> kfree write_buffer h2;
            Some (Inr count, f_pos, \<lparr>aesd_device = dev1, kheap = h3\<rparr>)
          })"

text \<open>
  The call \<^verbatim>\<open>aesd_write(filp, buf, count, f_pos)\<close>. The result is the return value, the
  caller's \<^verbatim>\<open>*f_pos\<close> (which the function never assigns) and the kernel state.
\<close>

definition aesd_write ::
    "struct_file \<Rightarrow> char list option \<Rightarrow> nat \<Rightarrow> int \<Rightarrow> write_env \<Rightarrow> kstate
       \<Rightarrow> (ssize_t \<times> int \<times> kstate) option" where
  "aesd_write filp buf count f_pos env s =
     (if private_data filp = None \<or> buf = None then Some (Inl EFAULT, f_pos, s)
      else if count = 0 then Some (Inr 0, f_pos, s)
      else if lock_interrupted env then Some (Inl ERESTARTSYS, f_pos, s)
      else
        case kmalloc (kmalloc_write_buffer env) count (kheap s) of
          (None, h) \<Rightarrow> Some (Inl ENOMEM, f_pos, s)
        | (Some write_buffer, h1) \<Rightarrow>
            do {
              (not_copied, h2) \<leftarrow> copy_from_user write_buffer (the buf) count h1;
              if not_copied \<noteq> 0
              then do { h \<leftarrow> kfree write_buffer h2; Some (Inl EFAULT, f_pos, s\<lparr>kheap := h\<rparr>) }
              else do {
                chunk \<leftarrow> load h2 write_buffer 0 count;
                case memchr chunk (CHR 0x0A) of
                  Some newline_offset \<Rightarrow>
                    aesd_write_complete write_buffer newline_offset f_pos env (s\<lparr>kheap := h2\<rparr>)
                | None \<Rightarrow>
                    aesd_write_partial write_buffer count f_pos env (s\<lparr>kheap := h2\<rparr>)
              }
            })"

subsection \<open>Well-formed states and what a state holds\<close>

text \<open>
  The contract of \<^verbatim>\<open>kmalloc\<close>: a pointer it returns is not the address of a block
  that is allocated at that moment. The second allocation of a call happens while
  \<open>write_buffer\<close> is allocated.
\<close>

definition kmalloc_fresh :: "write_env \<Rightarrow> kstate \<Rightarrow> bool" where
  "kmalloc_fresh env s =
     ((case kmalloc_write_buffer env of None \<Rightarrow> True | Some a \<Rightarrow> kheap s a = None) \<and>
      (case kmalloc_grown env of
         None \<Rightarrow> True
       | Some b \<Rightarrow> kheap s b = None \<and> kmalloc_write_buffer env \<noteq> Some b))"

text \<open>A pointer to an allocated block of exactly \<open>n\<close> bytes, \<open>n\<close> positive.\<close>

definition block_ok :: "heap \<Rightarrow> addr option \<Rightarrow> nat \<Rightarrow> bool" where
  "block_ok h p n =
     (case p of
        None \<Rightarrow> False
      | Some a \<Rightarrow> (case h a of None \<Rightarrow> False | Some bl \<Rightarrow> length bl = n \<and> 0 < n))"

definition live_ptrs :: "aesd_circular_buffer \<Rightarrow> addr option list" where
  "live_ptrs buffer = map (\<lambda>i. buffptr (entry buffer ! i)) (live_slots buffer)"

text \<open>
  The states the driver produces: the array has its capacity, \<open>in_offs\<close> is inside it,
  every live entry owns an allocated block of its size, which is positive, no two
  live entries share a block, and the partial write is either absent with size 0 or an
  allocated block of its size that no entry owns.
\<close>

definition dev_inv :: "kstate \<Rightarrow> bool" where
  "dev_inv s =
     (let dev = aesd_device s; buffer = circular_buffer dev; h = kheap s in
      length (entry buffer) = AESDCHAR_MAX_WRITE_OPERATIONS_SUPPORTED \<and>
      in_offs buffer < AESDCHAR_MAX_WRITE_OPERATIONS_SUPPORTED \<and>
      list_all (\<lambda>i. block_ok h (buffptr (entry buffer ! i)) (size_entry (entry buffer ! i)))
        (live_slots buffer) \<and>
      distinct (live_ptrs buffer) \<and>
      (case partial_write_buffer dev of
         None \<Rightarrow> partial_write_size dev = 0
       | Some p \<Rightarrow> block_ok h (Some p) (partial_write_size dev) \<and>
                  Some p \<notin> set (live_ptrs buffer)))"

text \<open>The first \<open>n\<close> bytes of the block at \<open>p\<close>.\<close>

definition bytes_at :: "heap \<Rightarrow> addr option \<Rightarrow> nat \<Rightarrow> char list" where
  "bytes_at h p n =
     (case p of None \<Rightarrow> [] | Some a \<Rightarrow> (case h a of None \<Rightarrow> [] | Some bl \<Rightarrow> take n bl))"

text \<open>The pending buffer, the bytes of the entry in slot \<open>i\<close>, and the live commands, oldest first.\<close>

definition pending :: "kstate \<Rightarrow> char list" where
  "pending s =
     bytes_at (kheap s) (partial_write_buffer (aesd_device s))
       (partial_write_size (aesd_device s))"

definition entry_bytes :: "kstate \<Rightarrow> nat \<Rightarrow> char list" where
  "entry_bytes s i =
     (let e = entry (circular_buffer (aesd_device s)) ! i
      in bytes_at (kheap s) (buffptr e) (size_entry e))"

definition commands :: "kstate \<Rightarrow> char list list" where
  "commands s = map (entry_bytes s) (live_slots (circular_buffer (aesd_device s)))"

text \<open>The total logical length: the sum of the sizes of the live entries.\<close>

definition total_size :: "aesd_circular_buffer \<Rightarrow> nat" where
  "total_size buffer = sum_list (map (\<lambda>i. size_entry (entry buffer ! i)) (live_slots buffer))"

text \<open>
  The state a completing write leaves, in closed form (lemma \<open>aesd_write_completes\<close>):
  the command \<open>cmd\<close> in the new block \<open>nb\<close> is added to the ring, the partial write and,
  in a full ring, the entry at \<open>in_offs\<close> are freed. Likewise the state a write without
  newline leaves (lemma \<open>aesd_write_appends\<close>).
\<close>

definition completed :: "kstate \<Rightarrow> addr \<Rightarrow> char list \<Rightarrow> kstate" where
  "completed s nb cmd =
     (let dev = aesd_device s; buffer = circular_buffer dev in
      \<lparr>aesd_device = dev
         \<lparr>circular_buffer :=
            aesd_circular_buffer_add_entry buffer
              \<lparr>buffptr = Some nb, size_entry = length cmd\<rparr>,
          partial_write_buffer := None, partial_write_size := 0\<rparr>,
       kheap = (\<lambda>a. if Some a = partial_write_buffer dev \<or>
                       (full buffer \<and> Some a = buffptr (entry buffer ! in_offs buffer))
                    then None
                    else if a = nb then Some cmd else kheap s a)\<rparr>)"

definition appended :: "kstate \<Rightarrow> addr \<Rightarrow> char list \<Rightarrow> kstate" where
  "appended s nb bs =
     (let dev = aesd_device s in
      \<lparr>aesd_device = dev\<lparr>partial_write_buffer := Some nb, partial_write_size := length bs\<rparr>,
       kheap = (\<lambda>a. if Some a = partial_write_buffer dev then None
                    else if a = nb then Some bs else kheap s a)\<rparr>)"

subsection \<open>The errors of the spec\<close>

text \<open>
  The spec's words, for comparison with the values the driver returns: "Errors surfaced
  across this boundary: \<open>InvalidArgument\<close> (null/invalid caller buffer), \<open>OutOfMemory\<close>,
  \<open>TransferFault\<close> (the opaque copy primitive failed), \<open>Interrupted\<close>". A caller sees an
  \<open>errno\<close> value; \<open>surfaced_error name res\<close> is the error of the spec it reads from the
  result \<open>res\<close> of a call when it names the driver's values by \<open>name\<close>.
\<close>

datatype spec_error = InvalidArgument | OutOfMemory | TransferFault | Interrupted

definition surfaced_error ::
    "(errno \<Rightarrow> spec_error) \<Rightarrow> (ssize_t \<times> 'a) option \<Rightarrow> spec_error option" where
  "surfaced_error name res =
     (case res of
        None \<Rightarrow> None
      | Some (r, rest) \<Rightarrow> (case r of Inl e \<Rightarrow> Some (name e) | Inr n \<Rightarrow> None))"

subsection \<open>Example states\<close>

text \<open>
  An open file, an environment in which the lock is taken and \<^verbatim>\<open>kmalloc\<close> returns the
  address 20 and then \<open>r\<close>, a state with two commands and the partial write \<open>de\<close>,
  and a state with a full ring (oldest entry in slot 3) and the partial write \<open>pq\<close>.
\<close>

definition example_filp :: struct_file where
  "example_filp = \<lparr>private_data = Some Aesd_device\<rparr>"

definition example_env :: "addr option \<Rightarrow> write_env" where
  "example_env r =
     \<lparr>lock_interrupted = False, kmalloc_write_buffer = Some 20, kmalloc_grown = r\<rparr>"

definition example_state :: kstate where
  "example_state =
     \<lparr>aesd_device =
        \<lparr>circular_buffer =
           \<lparr>entry = [\<lparr>buffptr = Some 2, size_entry = 12\<rparr>, \<lparr>buffptr = Some 1, size_entry = 4\<rparr>]
                      @ replicate 8 \<lparr>buffptr = None, size_entry = 0\<rparr>,
            in_offs = 2, full = False\<rparr>,
         partial_write_buffer = Some 3,
         partial_write_size = 2\<rparr>,
      kheap = [2 \<mapsto> ''hello world\<newline>'', 1 \<mapsto> ''abc\<newline>'', 3 \<mapsto> ''de'']\<rparr>"

definition example_full :: kstate where
  "example_full =
     \<lparr>aesd_device =
        \<lparr>circular_buffer =
           \<lparr>entry = map (\<lambda>i. \<lparr>buffptr = Some i, size_entry = 2\<rparr>) [0 ..< 10],
            in_offs = 3, full = True\<rparr>,
         partial_write_buffer = Some 10,
         partial_write_size = 2\<rparr>,
      kheap = (\<lambda>a. if a < 10 then Some [''abcdefghij'' ! a, CHR 0x0A]
                   else if a = 10 then Some ''pq'' else None)\<rparr>"

subsection \<open>The write branches in closed form\<close>

lemma memchr_Some:
  "memchr bs c = Some d \<Longrightarrow> d < length bs \<and> bs ! d = c \<and> c \<notin> set (take d bs)"
proof (induction bs arbitrary: d)
  case Nil
  then show ?case by simp
next
  case (Cons x xs)
  then show ?case by (auto split: if_splits)
qed

lemma memchr_None: "memchr bs c = None \<longleftrightarrow> c \<notin> set bs"
  by (induction bs) auto

lemma memchr_first:
  "d < length bs \<Longrightarrow> bs ! d = c \<Longrightarrow> c \<notin> set (take d bs) \<Longrightarrow> memchr bs c = Some d"
proof (induction bs arbitrary: d)
  case Nil
  then show ?case by simp
next
  case (Cons x xs)
  show ?case
  proof (cases d)
    case 0
    with Cons.prems show ?thesis by simp
  next
    case (Suc k)
    with Cons.prems have "k < length xs" "xs ! k = c" "c \<notin> set (take k xs)" "x \<noteq> c"
      by auto
    with Cons.IH [of k] have "memchr xs c = Some k" and "x \<noteq> c"
      by simp_all
    with Suc show ?thesis by simp
  qed
qed

lemma aesd_write_branch:
  assumes "private_data filp \<noteq> None" "0 < count" "count \<le> length ubytes"
    "\<not> lock_interrupted env" "kmalloc_write_buffer env = Some wb"
  shows "aesd_write filp (Some ubytes) count f_pos env s =
     (case memchr (take count ubytes) (CHR 0x0A) of
        Some d \<Rightarrow> aesd_write_complete wb d f_pos env (s\<lparr>kheap := (kheap s)(wb \<mapsto> take count ubytes)\<rparr>)
      | None \<Rightarrow> aesd_write_partial wb count f_pos env (s\<lparr>kheap := (kheap s)(wb \<mapsto> take count ubytes)\<rparr>))"
  using assms
  by (auto simp add: aesd_write_def kmalloc_def copy_from_user_def store_def load_def min_def)

lemma live_slot_facts:
  assumes "dev_inv s" "i \<in> set (live_slots (circular_buffer (aesd_device s)))"
  shows "i < length (entry (circular_buffer (aesd_device s)))"
    and "\<exists>a bl. buffptr (entry (circular_buffer (aesd_device s)) ! i) = Some a \<and> kheap s a = Some bl \<and>
           length bl = size_entry (entry (circular_buffer (aesd_device s)) ! i) \<and>
           0 < size_entry (entry (circular_buffer (aesd_device s)) ! i)"
    and "partial_write_buffer (aesd_device s) \<noteq> buffptr (entry (circular_buffer (aesd_device s)) ! i)"
proof -
  let ?b = "circular_buffer (aesd_device s)"
  from assms show "i < length (entry ?b)"
    by (auto simp: dev_inv_def Let_def live_slots_def split: if_splits)
  from assms have "block_ok (kheap s) (buffptr (entry ?b ! i)) (size_entry (entry ?b ! i))"
    by (simp add: dev_inv_def Let_def list_all_iff)
  then show "\<exists>a bl. buffptr (entry ?b ! i) = Some a \<and> kheap s a = Some bl \<and>
           length bl = size_entry (entry ?b ! i) \<and> 0 < size_entry (entry ?b ! i)"
    by (auto simp: block_ok_def split: option.splits)
  from assms show "partial_write_buffer (aesd_device s) \<noteq> buffptr (entry ?b ! i)"
    by (cases "partial_write_buffer (aesd_device s)")
       (auto simp: dev_inv_def Let_def live_ptrs_def block_ok_def list_all_iff split: option.splits)
qed

lemma live_slots_hd:
  assumes "full buffer" "in_offs buffer < AESDCHAR_MAX_WRITE_OPERATIONS_SUPPORTED"
  shows "live_slots buffer = in_offs buffer # tl (live_slots buffer)"
  using assms by (simp add: live_slots_def upt_conv_Cons)

lemma live_slots_add_entry:
  assumes "in_offs buffer < AESDCHAR_MAX_WRITE_OPERATIONS_SUPPORTED"
  shows "live_slots (aesd_circular_buffer_add_entry buffer e) =
     (if full buffer then tl (live_slots buffer) else live_slots buffer) @ [in_offs buffer]"
proof (cases "in_offs buffer + 1 = AESDCHAR_MAX_WRITE_OPERATIONS_SUPPORTED")
  case True
  then have C: "AESDCHAR_MAX_WRITE_OPERATIONS_SUPPORTED = Suc (in_offs buffer)"
    by simp
  have "tl [in_offs buffer..<Suc (in_offs buffer)] = []"
    by (simp add: upt_conv_Cons)
  then show ?thesis
    unfolding live_slots_def aesd_circular_buffer_add_entry_def Let_def C
    by simp
next
  case False
  with assms have "(in_offs buffer + 1) mod AESDCHAR_MAX_WRITE_OPERATIONS_SUPPORTED = in_offs buffer + 1"
    by simp
  with assms False show ?thesis
    by (auto simp: live_slots_def aesd_circular_buffer_add_entry_def Let_def upt_conv_Cons)
qed

lemma live_slots_distinct: "in_offs buffer < AESDCHAR_MAX_WRITE_OPERATIONS_SUPPORTED \<Longrightarrow> distinct (live_slots buffer)"
  by (auto simp: live_slots_def)


lemma pending_length: "dev_inv s \<Longrightarrow> length (pending s) = partial_write_size (aesd_device s)"
  by (auto simp: dev_inv_def Let_def pending_def bytes_at_def block_ok_def split: option.splits)

lemma partial_block:
  assumes "dev_inv s" "partial_write_buffer (aesd_device s) = Some p"
  shows "kheap s p = Some (pending s)" "0 < partial_write_size (aesd_device s)"
    "length (pending s) = partial_write_size (aesd_device s)"
  using assms
  by (auto simp: dev_inv_def Let_def pending_def bytes_at_def block_ok_def split: option.splits)

lemma partial_none:
  assumes "dev_inv s" "partial_write_buffer (aesd_device s) = None"
  shows "pending s = []" "partial_write_size (aesd_device s) = 0"
  using assms
  by (auto simp: dev_inv_def Let_def pending_def bytes_at_def)

lemma oldest_entry:
  assumes "dev_inv s" "full (circular_buffer (aesd_device s))"
  shows "in_offs (circular_buffer (aesd_device s)) \<in> set (live_slots (circular_buffer (aesd_device s)))"
  using assms by (auto simp: dev_inv_def Let_def live_slots_def)

lemma aesd_write_complete_closed:
  assumes inv: "dev_inv s" and wb: "kheap s wb = None" and d: "d < length chunk"
    and nb: "kmalloc_grown env = Some nb" "nb \<noteq> wb" "kheap s nb = None"
  shows "aesd_write_complete wb d f_pos env (s\<lparr>kheap := (kheap s)(wb \<mapsto> chunk)\<rparr>) =
     Some (Inr (d + 1), f_pos, completed s nb (pending s @ take (d + 1) chunk))"
proof -
  let ?dev = "aesd_device s"
  let ?b = "circular_buffer ?dev"
  have len: "length (pending s) = partial_write_size ?dev"
    using inv by (rule pending_length)
  have old: "\<exists>q bl. in_offs ?b < length (entry ?b) \<and> buffptr (entry ?b ! in_offs ?b) = Some q \<and>
      kheap s q = Some bl \<and> partial_write_buffer ?dev \<noteq> Some q" if "full ?b"
    using live_slot_facts [OF inv oldest_entry [OF inv that]] by fastforce
  show ?thesis
  proof (cases "partial_write_buffer ?dev")
    case None
    note pn = partial_none [OF inv None]
    show ?thesis
    proof (cases "full ?b")
      case True
      from old [OF True] obtain q bl where "in_offs ?b < length (entry ?b)"
        "buffptr (entry ?b ! in_offs ?b) = Some q" "kheap s q = Some bl" by blast
      with None True wb d nb pn show ?thesis
        by (auto simp add: aesd_write_complete_def completed_def kmalloc_def memcpy_def load_def
            store_def kfree_def slot_def Let_def fun_eq_iff)
    next
      case False
      with None wb d nb pn show ?thesis
        by (auto simp add: aesd_write_complete_def completed_def kmalloc_def memcpy_def load_def
            store_def kfree_def slot_def Let_def fun_eq_iff)
    qed
  next
    case (Some p)
    note pb = partial_block [OF inv Some]
    show ?thesis
    proof (cases "full ?b")
      case True
      from old [OF True] Some obtain q bl where "in_offs ?b < length (entry ?b)"
        "buffptr (entry ?b ! in_offs ?b) = Some q" "kheap s q = Some bl" "q \<noteq> p" by auto
      with Some True wb d nb pb show ?thesis
        by (auto simp add: aesd_write_complete_def completed_def kmalloc_def memcpy_def load_def
            store_def kfree_def slot_def Let_def fun_eq_iff)
    next
      case False
      with Some wb d nb pb show ?thesis
        by (auto simp add: aesd_write_complete_def completed_def kmalloc_def memcpy_def load_def
            store_def kfree_def slot_def Let_def fun_eq_iff)
    qed
  qed
qed

lemma aesd_write_partial_closed:
  assumes inv: "dev_inv s" and wb: "kheap s wb = None" and c: "count = length chunk"
    and nb: "kmalloc_grown env = Some nb" "nb \<noteq> wb" "kheap s nb = None"
  shows "aesd_write_partial wb count f_pos env (s\<lparr>kheap := (kheap s)(wb \<mapsto> chunk)\<rparr>) =
     Some (Inr count, f_pos, appended s nb (pending s @ chunk))"
proof (cases "partial_write_buffer (aesd_device s)")
  case None
  note pn = partial_none [OF inv None]
  from None wb c nb pn show ?thesis
    by (auto simp add: aesd_write_partial_def appended_def kmalloc_def memcpy_def load_def
        store_def kfree_def Let_def fun_eq_iff)
next
  case (Some p)
  note pb = partial_block [OF inv Some]
  from Some wb c nb pb show ?thesis
    by (auto simp add: aesd_write_partial_def appended_def kmalloc_def memcpy_def load_def
        store_def kfree_def Let_def fun_eq_iff)
qed

lemma aesd_write_nomem_closed:
  assumes "kheap s wb = None" "kmalloc_grown env = None"
  shows "aesd_write_complete wb d f_pos env (s\<lparr>kheap := (kheap s)(wb \<mapsto> chunk)\<rparr>) =
           Some (Inl ENOMEM, f_pos, s)"
    and "aesd_write_partial wb count f_pos env (s\<lparr>kheap := (kheap s)(wb \<mapsto> chunk)\<rparr>) =
           Some (Inl ENOMEM, f_pos, s)"
proof -
  from assms(1) have "(kheap s)(wb := None) = kheap s"
    by (simp add: fun_eq_iff)
  with assms(2) show "aesd_write_complete wb d f_pos env (s\<lparr>kheap := (kheap s)(wb \<mapsto> chunk)\<rparr>) =
           Some (Inl ENOMEM, f_pos, s)"
    and "aesd_write_partial wb count f_pos env (s\<lparr>kheap := (kheap s)(wb \<mapsto> chunk)\<rparr>) =
           Some (Inl ENOMEM, f_pos, s)"
    by (simp_all add: aesd_write_complete_def aesd_write_partial_def kmalloc_def kfree_def)
qed

subsection \<open>The state after a completing write\<close>

lemma rest_slots:
  assumes "in_offs b < AESDCHAR_MAX_WRITE_OPERATIONS_SUPPORTED"
    and "j \<in> set (if full b then tl (live_slots b) else live_slots b)"
  shows "j \<in> set (live_slots b)" and "j \<noteq> in_offs b"
proof -
  show "j \<in> set (live_slots b)"
    using assms(2) by (cases "live_slots b") (auto split: if_splits)
  show "j \<noteq> in_offs b"
  proof (cases "full b")
    case True
    from live_slots_distinct [OF assms(1)] live_slots_hd [OF True assms(1)]
    have "in_offs b \<notin> set (tl (live_slots b))"
      by (metis distinct.simps(2))
    with True assms(2) show ?thesis by auto
  next
    case False
    with assms(2) show ?thesis by (auto simp: live_slots_def)
  qed
qed

lemma oldest_not_in_tl:
  assumes "distinct (map f (live_slots b))" "j \<in> set (tl (live_slots b))"
    "full b" "in_offs b < AESDCHAR_MAX_WRITE_OPERATIONS_SUPPORTED"
  shows "f (in_offs b) \<noteq> f j"
  using assms by (auto simp: live_slots_def upt_conv_Cons)

lemma completed_keeps:
  assumes inv: "dev_inv s" and nb: "kheap s nb = None"
    and j: "j \<in> set (if full (circular_buffer (aesd_device s))
                     then tl (live_slots (circular_buffer (aesd_device s)))
                     else live_slots (circular_buffer (aesd_device s)))"
  shows "entry (circular_buffer (aesd_device (completed s nb cmd))) ! j =
           entry (circular_buffer (aesd_device s)) ! j"
    and "\<exists>a. buffptr (entry (circular_buffer (aesd_device s)) ! j) = Some a \<and> a \<noteq> nb \<and>
           kheap (completed s nb cmd) a = kheap s a"
proof -
  let ?b = "circular_buffer (aesd_device s)"
  have io: "in_offs ?b < AESDCHAR_MAX_WRITE_OPERATIONS_SUPPORTED"
    using inv by (simp add: dev_inv_def Let_def)
  note r = rest_slots [OF io j]
  from r(2) show "entry (circular_buffer (aesd_device (completed s nb cmd))) ! j = entry ?b ! j"
    by (simp add: completed_def Let_def aesd_circular_buffer_add_entry_def)
  from live_slot_facts [OF inv r(1)] obtain a bl where
    a: "buffptr (entry ?b ! j) = Some a" "kheap s a = Some bl"
      "partial_write_buffer (aesd_device s) \<noteq> Some a"
    by auto
  have "buffptr (entry ?b ! in_offs ?b) \<noteq> Some a" if "full ?b"
  proof -
    from inv have "distinct (map (\<lambda>i. buffptr (entry ?b ! i)) (live_slots ?b))"
      by (simp add: dev_inv_def Let_def live_ptrs_def)
    moreover from j that have "j \<in> set (tl (live_slots ?b))"
      by simp
    ultimately have "buffptr (entry ?b ! in_offs ?b) \<noteq> buffptr (entry ?b ! j)"
      using that io by (rule oldest_not_in_tl)
    with a(1) show ?thesis by simp
  qed
  with a nb show "\<exists>a. buffptr (entry ?b ! j) = Some a \<and> a \<noteq> nb \<and>
           kheap (completed s nb cmd) a = kheap s a"
    by (auto simp: completed_def Let_def)
qed

lemma completed_new:
  assumes inv: "dev_inv s" and nb: "kheap s nb = None"
  shows "entry (circular_buffer (aesd_device (completed s nb cmd))) !
           in_offs (circular_buffer (aesd_device s)) = \<lparr>buffptr = Some nb, size_entry = length cmd\<rparr>"
    and "kheap (completed s nb cmd) nb = Some cmd"
proof -
  let ?b = "circular_buffer (aesd_device s)"
  from inv show "entry (circular_buffer (aesd_device (completed s nb cmd))) ! in_offs ?b =
      \<lparr>buffptr = Some nb, size_entry = length cmd\<rparr>"
    by (simp add: completed_def Let_def aesd_circular_buffer_add_entry_def dev_inv_def)
  have "partial_write_buffer (aesd_device s) \<noteq> Some nb"
    using inv nb by (auto simp: dev_inv_def Let_def block_ok_def split: option.splits)
  moreover have "buffptr (entry ?b ! in_offs ?b) \<noteq> Some nb" if "full ?b"
    using live_slot_facts(2) [OF inv oldest_entry [OF inv that]] nb by auto
  ultimately show "kheap (completed s nb cmd) nb = Some cmd"
    by (auto simp: completed_def Let_def)
qed

lemma completed_live_slots:
  assumes inv: "dev_inv s"
  shows "live_slots (circular_buffer (aesd_device (completed s nb cmd))) =
     (if full (circular_buffer (aesd_device s))
      then tl (live_slots (circular_buffer (aesd_device s)))
      else live_slots (circular_buffer (aesd_device s))) @ [in_offs (circular_buffer (aesd_device s))]"
proof -
  have io: "in_offs (circular_buffer (aesd_device s)) < AESDCHAR_MAX_WRITE_OPERATIONS_SUPPORTED"
    using inv by (simp add: dev_inv_def Let_def)
  show ?thesis
    using live_slots_add_entry [OF io] by (simp add: completed_def Let_def)
qed

lemma completed_commands:
  assumes inv: "dev_inv s" and nb: "kheap s nb = None"
  shows "commands (completed s nb cmd) =
     (if full (circular_buffer (aesd_device s)) then tl (commands s) else commands s) @ [cmd]"
proof -
  let ?b = "circular_buffer (aesd_device s)"
  let ?rest = "if full ?b then tl (live_slots ?b) else live_slots ?b"
  have "entry_bytes (completed s nb cmd) j = entry_bytes s j" if "j \<in> set ?rest" for j
    using completed_keeps [OF inv nb that, of cmd]
    by (auto simp: entry_bytes_def Let_def bytes_at_def)
  then have "map (entry_bytes (completed s nb cmd)) ?rest = map (entry_bytes s) ?rest"
    by simp
  moreover have "entry_bytes (completed s nb cmd) (in_offs ?b) = cmd"
    using completed_new [OF inv nb, of cmd] by (simp add: entry_bytes_def Let_def bytes_at_def)
  moreover have "(if full ?b then tl (commands s) else commands s) = map (entry_bytes s) ?rest"
    by (simp add: commands_def map_tl)
  ultimately show ?thesis
    by (simp only: commands_def completed_live_slots [OF inv] map_append list.map)
qed

lemma completed_pending: "pending (completed s nb cmd) = []"
  by (simp add: pending_def completed_def Let_def bytes_at_def)

lemma completed_inv:
  assumes inv: "dev_inv s" and nb: "kheap s nb = None" and cmd: "cmd \<noteq> []"
  shows "dev_inv (completed s nb cmd)"
proof -
  let ?b = "circular_buffer (aesd_device s)"
  let ?s' = "completed s nb cmd"
  let ?b' = "circular_buffer (aesd_device ?s')"
  define rest where "rest = (if full ?b then tl (live_slots ?b) else live_slots ?b)"
  have io: "in_offs ?b < AESDCHAR_MAX_WRITE_OPERATIONS_SUPPORTED"
    and len: "length (entry ?b) = AESDCHAR_MAX_WRITE_OPERATIONS_SUPPORTED"
    using inv by (simp_all add: dev_inv_def Let_def)
  have C0: "0 < AESDCHAR_MAX_WRITE_OPERATIONS_SUPPORTED"
    using io by simp
  have ls: "live_slots ?b' = rest @ [in_offs ?b]"
    unfolding rest_def by (rule completed_live_slots [OF inv])
  have 1: "length (entry ?b') = AESDCHAR_MAX_WRITE_OPERATIONS_SUPPORTED"
    using len by (simp add: completed_def Let_def aesd_circular_buffer_add_entry_def)
  have 2: "in_offs ?b' < AESDCHAR_MAX_WRITE_OPERATIONS_SUPPORTED"
    using C0 by (simp add: completed_def Let_def aesd_circular_buffer_add_entry_def)
  have old: "block_ok (kheap ?s') (buffptr (entry ?b' ! j)) (size_entry (entry ?b' ! j))"
    and old_ptr: "buffptr (entry ?b' ! j) = buffptr (entry ?b ! j)"
    and old_nb: "buffptr (entry ?b' ! j) \<noteq> Some nb"
    if "j \<in> set rest" for j
  proof -
    from that have j: "j \<in> set (if full ?b then tl (live_slots ?b) else live_slots ?b)"
      by (simp only: rest_def)
    from completed_keeps [OF inv nb j, of cmd] obtain a where
      a: "entry ?b' ! j = entry ?b ! j" "buffptr (entry ?b ! j) = Some a" "a \<noteq> nb"
        "kheap ?s' a = kheap s a"
      by auto
    from live_slot_facts(2) [OF inv rest_slots(1) [OF io j]] a
    show "block_ok (kheap ?s') (buffptr (entry ?b' ! j)) (size_entry (entry ?b' ! j))"
      by (auto simp: block_ok_def)
    from a show "buffptr (entry ?b' ! j) = buffptr (entry ?b ! j)"
      by simp
    from a show "buffptr (entry ?b' ! j) \<noteq> Some nb"
      by simp
  qed
  have new: "block_ok (kheap ?s') (buffptr (entry ?b' ! in_offs ?b)) (size_entry (entry ?b' ! in_offs ?b))"
    "buffptr (entry ?b' ! in_offs ?b) = Some nb"
    using completed_new [OF inv nb, of cmd] cmd by (simp_all add: block_ok_def)
  have 3: "list_all (\<lambda>i. block_ok (kheap ?s') (buffptr (entry ?b' ! i)) (size_entry (entry ?b' ! i)))
        (live_slots ?b')"
    unfolding ls list_all_iff using old new(1) by (simp only: set_append list.set) blast
  have "distinct (map (\<lambda>i. buffptr (entry ?b ! i)) (live_slots ?b))"
    using inv by (simp add: dev_inv_def Let_def live_ptrs_def)
  then have "distinct (map (\<lambda>i. buffptr (entry ?b ! i)) rest)"
    unfolding rest_def by (simp add: distinct_tl map_tl)
  moreover have eq: "map (\<lambda>i. buffptr (entry ?b' ! i)) rest = map (\<lambda>i. buffptr (entry ?b ! i)) rest"
    by (rule map_cong [OF refl]) (rule old_ptr)
  moreover have "Some nb \<notin> set (map (\<lambda>i. buffptr (entry ?b' ! i)) rest)"
  proof
    assume "Some nb \<in> set (map (\<lambda>i. buffptr (entry ?b' ! i)) rest)"
    then obtain j where "j \<in> set rest" "buffptr (entry ?b' ! j) = Some nb"
      by auto
    with old_nb show False by blast
  qed
  ultimately have 4: "distinct (live_ptrs ?b')"
    unfolding live_ptrs_def ls map_append using new(2) by (simp del: map_eq_conv)
  have 5: "partial_write_buffer (aesd_device ?s') = None" "partial_write_size (aesd_device ?s') = 0"
    by (simp_all add: completed_def Let_def)
  from 1 2 3 4 5 show ?thesis
    unfolding dev_inv_def Let_def by simp
qed

subsection \<open>The state after a write without newline; resolution; reading an entry\<close>

lemma appended_keeps:
  assumes inv: "dev_inv s" and nb: "kheap s nb = None"
    and j: "j \<in> set (live_slots (circular_buffer (aesd_device s)))"
  shows "\<exists>a. buffptr (entry (circular_buffer (aesd_device s)) ! j) = Some a \<and> a \<noteq> nb \<and>
           kheap (appended s nb bs) a = kheap s a"
proof -
  from live_slot_facts [OF inv j] obtain a bl where
    "buffptr (entry (circular_buffer (aesd_device s)) ! j) = Some a" "kheap s a = Some bl"
    "partial_write_buffer (aesd_device s) \<noteq> Some a"
    by auto
  with nb show ?thesis
    by (auto simp: appended_def Let_def)
qed

lemma appended_new:
  assumes inv: "dev_inv s" and nb: "kheap s nb = None"
  shows "kheap (appended s nb bs) nb = Some bs"
proof -
  have "partial_write_buffer (aesd_device s) \<noteq> Some nb"
    using inv nb by (auto simp: dev_inv_def Let_def block_ok_def split: option.splits)
  then show ?thesis
    by (auto simp: appended_def Let_def)
qed

lemma appended_buffer:
  "circular_buffer (aesd_device (appended s nb bs)) = circular_buffer (aesd_device s)"
  by (simp add: appended_def Let_def)

lemma appended_commands:
  assumes inv: "dev_inv s" and nb: "kheap s nb = None"
  shows "commands (appended s nb bs) = commands s"
proof -
  have "entry_bytes (appended s nb bs) j = entry_bytes s j"
    if "j \<in> set (live_slots (circular_buffer (aesd_device s)))" for j
    using appended_keeps [OF inv nb that, of bs]
    by (auto simp: entry_bytes_def Let_def bytes_at_def appended_buffer)
  then show ?thesis
    by (simp add: commands_def appended_buffer)
qed

lemma appended_pending:
  assumes inv: "dev_inv s" and nb: "kheap s nb = None"
  shows "pending (appended s nb bs) = bs"
proof -
  have "partial_write_buffer (aesd_device (appended s nb bs)) = Some nb"
    "partial_write_size (aesd_device (appended s nb bs)) = length bs"
    by (simp_all add: appended_def Let_def)
  with appended_new [OF inv nb, of bs] show ?thesis
    by (simp add: pending_def bytes_at_def)
qed

lemma appended_inv:
  assumes inv: "dev_inv s" and nb: "kheap s nb = None" and bs: "bs \<noteq> []"
  shows "dev_inv (appended s nb bs)"
proof -
  let ?b = "circular_buffer (aesd_device s)"
  let ?s' = "appended s nb bs"
  have b: "circular_buffer (aesd_device ?s') = ?b"
    by (rule appended_buffer)
  have io: "in_offs ?b < AESDCHAR_MAX_WRITE_OPERATIONS_SUPPORTED"
    and len: "length (entry ?b) = AESDCHAR_MAX_WRITE_OPERATIONS_SUPPORTED"
    and dist: "distinct (live_ptrs ?b)"
    using inv by (simp_all add: dev_inv_def Let_def)
  have ok: "block_ok (kheap ?s') (buffptr (entry ?b ! j)) (size_entry (entry ?b ! j))"
    and ne: "buffptr (entry ?b ! j) \<noteq> Some nb"
    if "j \<in> set (live_slots ?b)" for j
  proof -
    from appended_keeps [OF inv nb that, of bs] obtain a where
      a: "buffptr (entry ?b ! j) = Some a" "a \<noteq> nb" "kheap ?s' a = kheap s a"
      by auto
    from live_slot_facts(2) [OF inv that] a
    show "block_ok (kheap ?s') (buffptr (entry ?b ! j)) (size_entry (entry ?b ! j))"
      by (auto simp: block_ok_def)
    from a show "buffptr (entry ?b ! j) \<noteq> Some nb"
      by simp
  qed
  have 3: "list_all (\<lambda>i. block_ok (kheap ?s') (buffptr (entry ?b ! i)) (size_entry (entry ?b ! i)))
        (live_slots ?b)"
    unfolding list_all_iff using ok by blast
  have 4: "Some nb \<notin> set (live_ptrs ?b)"
  proof
    assume "Some nb \<in> set (live_ptrs ?b)"
    then obtain j where "j \<in> set (live_slots ?b)" "buffptr (entry ?b ! j) = Some nb"
      by (auto simp: live_ptrs_def)
    with ne show False by blast
  qed
  have 5: "partial_write_buffer (aesd_device ?s') = Some nb"
    "partial_write_size (aesd_device ?s') = length bs"
    by (simp_all add: appended_def Let_def)
  have 6: "block_ok (kheap ?s') (Some nb) (length bs)"
    using appended_new [OF inv nb, of bs] bs by (simp add: block_ok_def)
  from io len dist 3 4 5 6 show ?thesis
    unfolding dev_inv_def Let_def b by simp
qed

lemma capacity_pos: "0 < AESDCHAR_MAX_WRITE_OPERATIONS_SUPPORTED"
  by (simp add: AESDCHAR_MAX_WRITE_OPERATIONS_SUPPORTED_def)

lemma init_inv: "dev_inv \<lparr>aesd_device = aesd_init_module, kheap = h\<rparr>"
  by (simp add: dev_inv_def aesd_init_module_def live_slots_def live_ptrs_def capacity_pos)

lemma walk_entries_None:
  "walk_entries es slots off = None \<longleftrightarrow>
     sum_list (map (\<lambda>i. size_entry (es ! i)) slots) \<le> off"
proof (induction slots arbitrary: off)
  case Nil
  show ?case by simp
next
  case (Cons i slots)
  show ?case
  proof (cases "off < size_entry (es ! i)")
    case True
    then show ?thesis by simp
  next
    case False
    with Cons.IH [of "off - size_entry (es ! i)"] show ?thesis
      by simp linarith
  qed
qed

lemma walk_entries_Some:
  "walk_entries es slots off = Some (i, o') \<Longrightarrow> i \<in> set slots \<and> o' < size_entry (es ! i)"
  by (induction slots arbitrary: off) (auto split: if_splits)

lemma find_entry_None:
  "aesd_circular_buffer_find_entry_offset_for_fpos buffer off = None \<longleftrightarrow> total_size buffer \<le> off"
  by (simp add: aesd_circular_buffer_find_entry_offset_for_fpos_def total_size_def walk_entries_None)

lemma find_entry_Some:
  assumes "aesd_circular_buffer_find_entry_offset_for_fpos buffer off = Some (i, o')"
  shows "i \<in> set (live_slots buffer)" "o' < size_entry (entry buffer ! i)"
  using walk_entries_Some [of "entry buffer" "live_slots buffer" off i o'] assms
  by (simp_all add: aesd_circular_buffer_find_entry_offset_for_fpos_def)

lemma aesd_read_entry:
  assumes inv: "dev_inv s" and filp: "private_data filp \<noteq> None" and int: "\<not> interrupted"
    and res: "aesd_circular_buffer_find_entry_offset_for_fpos (circular_buffer (aesd_device s))
               (size_t_of_loff_t f_pos) = Some (i, off)"
  shows "aesd_read filp (Some ubuf) count f_pos interrupted s =
     (let n = min count (size_entry (entry (circular_buffer (aesd_device s)) ! i) - off);
          bs = take n (drop off (entry_bytes s i))
      in if length ubuf < n then Some (Inl EFAULT, f_pos, Some (take (length ubuf) bs), s)
         else Some (Inr n, f_pos + int n, Some (bs @ drop n ubuf), s))"
proof -
  let ?b = "circular_buffer (aesd_device s)"
  note f = find_entry_Some [OF res]
  from live_slot_facts [OF inv f(1)] obtain a bl where
    a: "i < length (entry ?b)" "buffptr (entry ?b ! i) = Some a" "kheap s a = Some bl"
      "length bl = size_entry (entry ?b ! i)"
    by auto
  with f(2) filp int res show ?thesis
    by (auto simp: aesd_read_def Let_def slot_def load_def size_t_sub_def copy_to_user_def
        entry_bytes_def bytes_at_def min_def)
qed

subsection \<open>The outcomes of a write\<close>

lemma aesd_write_completes:
  assumes inv: "dev_inv s" and filp: "private_data filp \<noteq> None"
    and env: "\<not> lock_interrupted env" "kmalloc_write_buffer env = Some wb"
      "kmalloc_grown env = Some nb" "kmalloc_fresh env s"
    and count: "count \<le> length ubytes"
    and d: "d < count" "ubytes ! d = CHR 0x0A" "CHR 0x0A \<notin> set (take d ubytes)"
  shows "aesd_write filp (Some ubytes) count f_pos env s =
     Some (Inr (d + 1), f_pos, completed s nb (pending s @ take (d + 1) ubytes))"
proof -
  from count d have "memchr (take count ubytes) (CHR 0x0A) = Some d"
    by (intro memchr_first) (simp_all add: min_def)
  moreover from env have "kheap s wb = None" "nb \<noteq> wb" "kheap s nb = None"
    by (auto simp: kmalloc_fresh_def)
  moreover from count d have "d < length (take count ubytes)"
    "take (d + 1) (take count ubytes) = take (d + 1) ubytes"
    by (simp_all add: min_def)
  ultimately show ?thesis
    using aesd_write_branch [OF filp _ count env(1,2), of f_pos s]
      aesd_write_complete_closed [OF inv, of wb d "take count ubytes" env nb f_pos] d(1) env(3)
    by simp
qed

lemma aesd_write_appends:
  assumes inv: "dev_inv s" and filp: "private_data filp \<noteq> None"
    and env: "\<not> lock_interrupted env" "kmalloc_write_buffer env = Some wb"
      "kmalloc_grown env = Some nb" "kmalloc_fresh env s"
    and count: "0 < count" "count \<le> length ubytes"
    and nl: "CHR 0x0A \<notin> set (take count ubytes)"
  shows "aesd_write filp (Some ubytes) count f_pos env s =
     Some (Inr count, f_pos, appended s nb (pending s @ take count ubytes))"
proof -
  from nl have "memchr (take count ubytes) (CHR 0x0A) = None"
    by (simp add: memchr_None)
  moreover from env have "kheap s wb = None" "nb \<noteq> wb" "kheap s nb = None"
    by (auto simp: kmalloc_fresh_def)
  moreover from count have "count = length (take count ubytes)"
    by simp
  ultimately show ?thesis
    using aesd_write_branch [OF filp count env(1,2), of f_pos s]
      aesd_write_partial_closed [OF inv, of wb count "take count ubytes" env nb f_pos] env(3)
    by simp
qed

lemma aesd_write_nomem:
  assumes filp: "private_data filp \<noteq> None"
    and env: "\<not> lock_interrupted env" "kmalloc_write_buffer env = Some wb" "kheap s wb = None"
      "kmalloc_grown env = None"
    and count: "0 < count" "count \<le> length ubytes"
  shows "aesd_write filp (Some ubytes) count f_pos env s = Some (Inl ENOMEM, f_pos, s)"
  using aesd_write_branch [OF filp count env(1,2), of f_pos s]
    aesd_write_nomem_closed [OF env(3,4)]
  by (simp split: option.split)

lemma aesd_write_fault:
  assumes filp: "private_data filp \<noteq> None"
    and env: "\<not> lock_interrupted env" "kmalloc_write_buffer env = Some wb" "kheap s wb = None"
    and count: "length ubytes < count"
  shows "aesd_write filp (Some ubytes) count f_pos env s = Some (Inl EFAULT, f_pos, s)"
proof -
  from env(3) have "(kheap s)(wb := None) = kheap s"
    by (simp add: fun_eq_iff)
  with assms show ?thesis
    by (auto simp: aesd_write_def kmalloc_def copy_from_user_def store_def kfree_def min_def
        Let_def)
qed

lemma aesd_write_inv:
  assumes inv: "dev_inv s" and fresh: "kmalloc_fresh env s"
  shows "\<exists>r s'. aesd_write filp buf count f_pos env s = Some (r, f_pos, s') \<and> dev_inv s'"
proof -
  consider (null) "private_data filp = None \<or> buf = None"
    | (zero) "private_data filp \<noteq> None" "buf \<noteq> None" "count = 0"
    | (intr) "private_data filp \<noteq> None" "buf \<noteq> None" "0 < count" "lock_interrupted env"
    | (nomem1) "private_data filp \<noteq> None" "buf \<noteq> None" "0 < count" "\<not> lock_interrupted env"
        "kmalloc_write_buffer env = None"
    | (run) wb ubytes where "private_data filp \<noteq> None" "buf = Some ubytes" "0 < count"
        "\<not> lock_interrupted env" "kmalloc_write_buffer env = Some wb"
    by (cases "kmalloc_write_buffer env"; cases buf) auto
  then show ?thesis
  proof cases
    case null
    with inv show ?thesis by (auto simp: aesd_write_def)
  next
    case zero
    with inv show ?thesis by (auto simp: aesd_write_def)
  next
    case intr
    with inv show ?thesis by (auto simp: aesd_write_def)
  next
    case nomem1
    with inv show ?thesis by (auto simp: aesd_write_def kmalloc_def)
  next
    case run
    from fresh run(5) have wb: "kheap s wb = None"
      by (simp add: kmalloc_fresh_def)
    show ?thesis
    proof (cases "count \<le> length ubytes")
      case False
      then have "length ubytes < count" by simp
      from aesd_write_fault [OF run(1,4,5) wb this] inv run(2) show ?thesis
        by simp
    next
      case le: True
      show ?thesis
      proof (cases "kmalloc_grown env")
        case None
        from aesd_write_nomem [OF run(1,4,5) wb None run(3) le] inv run(2) show ?thesis
          by simp
      next
        case (Some nb)
        with fresh have nb: "kheap s nb = None"
          by (simp add: kmalloc_fresh_def)
        show ?thesis
        proof (cases "memchr (take count ubytes) (CHR 0x0A)")
          case None
          then have nl: "CHR 0x0A \<notin> set (take count ubytes)"
            by (simp add: memchr_None)
          from run(3) le have "pending s @ take count ubytes \<noteq> []"
            by auto
          from appended_inv [OF inv nb this]
            aesd_write_appends [OF inv run(1,4,5) Some fresh run(3) le nl, of f_pos] run(2)
          show ?thesis by simp
        next
          case (Some d)
          from memchr_Some [OF Some] le
          have d: "d < count" "ubytes ! d = CHR 0x0A" "CHR 0x0A \<notin> set (take d ubytes)"
            by (auto simp: min_def split: if_splits)
          from d(1) le have "pending s @ take (d + 1) ubytes \<noteq> []"
            by auto
          from completed_inv [OF inv nb this]
            aesd_write_completes [OF inv run(1,4,5) \<open>kmalloc_grown env = Some nb\<close> fresh le d, of f_pos]
            run(2)
          show ?thesis by simp
        qed
      qed
    qed
  qed
qed

subsection \<open>The outcomes of a read\<close>

lemma aesd_read_frame:
  assumes "aesd_read filp buf count f_pos interrupted s = Some (r, p, b, s')"
  shows "s' = s" and "p = f_pos + (case r of Inl e \<Rightarrow> 0 | Inr n \<Rightarrow> int n)"
  using assms
  by (auto simp: aesd_read_def Let_def bind_eq_Some_conv copy_to_user_def
      split: if_splits option.splits prod.splits)

lemma aesd_read_defined:
  assumes inv: "dev_inv s"
  shows "aesd_read filp buf count f_pos interrupted s \<noteq> None"
proof (cases "private_data filp = None \<or> buf = None \<or> interrupted")
  case True
  then show ?thesis by (auto simp: aesd_read_def)
next
  case False
  then obtain ubuf where f: "private_data filp \<noteq> None" "buf = Some ubuf" "\<not> interrupted"
    by auto
  show ?thesis
  proof (cases "aesd_circular_buffer_find_entry_offset_for_fpos (circular_buffer (aesd_device s))
      (size_t_of_loff_t f_pos)")
    case None
    with f show ?thesis by (simp add: aesd_read_def)
  next
    case (Some a)
    then obtain i off where "aesd_circular_buffer_find_entry_offset_for_fpos
        (circular_buffer (aesd_device s)) (size_t_of_loff_t f_pos) = Some (i, off)"
      by (cases a) simp
    from aesd_read_entry [OF inv f(1,3) this, of ubuf count] f(2) show ?thesis
      by (simp add: Let_def)
  qed
qed

lemma resolved_block_allocated:
  assumes inv: "dev_inv s"
    and res: "aesd_circular_buffer_find_entry_offset_for_fpos (circular_buffer (aesd_device s)) off =
               Some (i, o')"
  shows "\<exists>a. buffptr (entry (circular_buffer (aesd_device s)) ! i) = Some a \<and> kheap s a \<noteq> None"
  using live_slot_facts(2) [OF inv find_entry_Some(1) [OF res]] by auto

section \<open>The claims\<close>

text \<open>
  C1. A write whose chunk has its first newline at offset \<open>d\<close> (the lock taken, both
  allocations and the copy from the caller succeeding) returns \<open>d + 1\<close> and adds exactly one
  command to the ring: the pending bytes followed by the chunk up to and including the
  newline, of length \<open>partial_write_size + d + 1\<close>; in a full ring the oldest command
  goes. The pending buffer is empty afterwards, and the call leaves the state that a
  write of the chunk cut after the newline leaves: no byte after offset \<open>d\<close> is kept.
\<close>

theorem write_with_delimiter:
  assumes inv: "dev_inv s" and filp: "private_data filp \<noteq> None"
    and env: "\<not> lock_interrupted env" "kmalloc_write_buffer env = Some wb"
      "kmalloc_grown env = Some nb" "kmalloc_fresh env s"
    and count: "count \<le> length ubytes"
    and d: "d < count" "ubytes ! d = CHR 0x0A" "CHR 0x0A \<notin> set (take d ubytes)"
  shows "\<exists>s'. aesd_write filp (Some ubytes) count f_pos env s = Some (Inr (d + 1), f_pos, s') \<and>
     commands s' =
       (if full (circular_buffer (aesd_device s)) then tl (commands s) else commands s) @
       [pending s @ take (d + 1) ubytes] \<and>
     length (pending s @ take (d + 1) ubytes) = partial_write_size (aesd_device s) + d + 1 \<and>
     circular_buffer (aesd_device s') =
       aesd_circular_buffer_add_entry (circular_buffer (aesd_device s))
         \<lparr>buffptr = Some nb, size_entry = partial_write_size (aesd_device s) + d + 1\<rparr> \<and>
     pending s' = [] \<and> partial_write_size (aesd_device s') = 0 \<and>
     aesd_write filp (Some (take (d + 1) ubytes)) (d + 1) f_pos env s =
       Some (Inr (d + 1), f_pos, s')"
proof -
  let ?cmd = "pending s @ take (d + 1) ubytes"
  let ?s' = "completed s nb ?cmd"
  from env have nb: "kheap s nb = None"
    by (simp add: kmalloc_fresh_def)
  from count d(1) have len: "length ?cmd = partial_write_size (aesd_device s) + d + 1"
    by (simp add: pending_length [OF inv])
  have w: "aesd_write filp (Some ubytes) count f_pos env s = Some (Inr (d + 1), f_pos, ?s')"
    by (rule aesd_write_completes [OF inv filp env count d])
  from count d have "d + 1 \<le> length (take (d + 1) ubytes)" "d < d + 1"
    "take (d + 1) ubytes ! d = CHR 0x0A" "CHR 0x0A \<notin> set (take d (take (d + 1) ubytes))"
    by (simp_all add: min_def)
  from aesd_write_completes [OF inv filp env this, of f_pos]
  have w': "aesd_write filp (Some (take (d + 1) ubytes)) (d + 1) f_pos env s =
      Some (Inr (d + 1), f_pos, ?s')"
    by simp
  have b: "circular_buffer (aesd_device ?s') =
       aesd_circular_buffer_add_entry (circular_buffer (aesd_device s))
         \<lparr>buffptr = Some nb, size_entry = partial_write_size (aesd_device s) + d + 1\<rparr>"
    unfolding len [symmetric] by (simp add: completed_def Let_def)
  have p: "partial_write_size (aesd_device ?s') = 0"
    by (simp add: completed_def Let_def)
  from w completed_commands [OF inv nb, of ?cmd] len b completed_pending [of s nb ?cmd] p w'
  show ?thesis by blast
qed

theorem write_with_delimiter_witness:
  "\<exists>s'. aesd_write example_filp (Some ''abc\<newline>def'') 7 0 (example_env (Some 21)) example_full =
          Some (Inr 4, 0, s') \<and>
        commands s' = [''e\<newline>'', ''f\<newline>'', ''g\<newline>'', ''h\<newline>'', ''i\<newline>'', ''j\<newline>'', ''a\<newline>'', ''b\<newline>'', ''c\<newline>'',
                       ''pqabc\<newline>''] \<and>
        pending s' = [] \<and>
        aesd_write example_filp (Some ''abc\<newline>'') 4 0 (example_env (Some 21)) example_full =
          Some (Inr 4, 0, s')"
proof -
  have h: "dev_inv example_full" "private_data example_filp \<noteq> None"
    "\<not> lock_interrupted (example_env (Some 21))"
    "kmalloc_write_buffer (example_env (Some 21)) = Some 20"
    "kmalloc_grown (example_env (Some 21)) = Some 21"
    "kmalloc_fresh (example_env (Some 21)) example_full"
    "7 \<le> length ''abc\<newline>def''" "(3::nat) < 7" "''abc\<newline>def'' ! 3 = CHR 0x0A"
    "CHR 0x0A \<notin> set (take 3 ''abc\<newline>def'')"
    by code_simp+
  have e: "full (circular_buffer (aesd_device example_full))"
    "tl (commands example_full) = [''e\<newline>'', ''f\<newline>'', ''g\<newline>'', ''h\<newline>'', ''i\<newline>'', ''j\<newline>'', ''a\<newline>'', ''b\<newline>'', ''c\<newline>'']"
    "pending example_full = ''pq''"
    by code_simp+
  from write_with_delimiter [OF h, of 0] e show ?thesis
    by auto
qed

text \<open>
  C2. A read whose offset resolves to the entry in slot \<open>i\<close> at in-entry offset \<open>off\<close>
  (the lock taken, the caller's buffer large enough for the copy) returns
  \<open>n = min count (size - off)\<close>, and the \<open>n\<close> bytes it puts into the caller's buffer are
  the bytes \<open>off ..< off + n\<close> of that one entry; they end inside it, so no byte of a
  following entry is returned, however large \<open>count\<close> is.
\<close>

theorem read_single_entry:
  assumes inv: "dev_inv s" and filp: "private_data filp \<noteq> None"
    and res: "aesd_circular_buffer_find_entry_offset_for_fpos (circular_buffer (aesd_device s))
               (size_t_of_loff_t f_pos) = Some (i, off)"
    and n: "n = min count (size_entry (entry (circular_buffer (aesd_device s)) ! i) - off)"
    and room: "n \<le> length ubuf"
  shows "aesd_read filp (Some ubuf) count f_pos False s =
           Some (Inr n, f_pos + int n, Some (take n (drop off (entry_bytes s i)) @ drop n ubuf), s) \<and>
         i \<in> set (live_slots (circular_buffer (aesd_device s))) \<and>
         length (entry_bytes s i) = size_entry (entry (circular_buffer (aesd_device s)) ! i) \<and>
         off + n \<le> length (entry_bytes s i)"
proof -
  note f = find_entry_Some [OF res]
  from live_slot_facts(2) [OF inv f(1)]
  have len: "length (entry_bytes s i) = size_entry (entry (circular_buffer (aesd_device s)) ! i)"
    by (auto simp: entry_bytes_def Let_def bytes_at_def)
  from room have "\<not> length ubuf < n"
    by simp
  with aesd_read_entry [OF inv filp _ res, of False ubuf count]
  have "aesd_read filp (Some ubuf) count f_pos False s =
      Some (Inr n, f_pos + int n, Some (take n (drop off (entry_bytes s i)) @ drop n ubuf), s)"
    unfolding Let_def n [symmetric] by simp
  moreover from n f(2) len have "off + n \<le> length (entry_bytes s i)"
    by simp
  ultimately show ?thesis
    using f(1) len by simp
qed

theorem read_single_entry_witness:
  "aesd_read example_filp (Some ''............'') 100 2 False example_state =
     Some (Inr 10, 12, Some ''llo world\<newline>..'', example_state) \<and>
   commands example_state = [''hello world\<newline>'', ''abc\<newline>'']"
proof -
  have h: "dev_inv example_state" "private_data example_filp \<noteq> None"
    "aesd_circular_buffer_find_entry_offset_for_fpos (circular_buffer (aesd_device example_state))
       (size_t_of_loff_t 2) = Some (0, 2)"
    "10 = min 100 (size_entry (entry (circular_buffer (aesd_device example_state)) ! 0) - 2)"
    "10 \<le> length ''............''"
    by code_simp+
  have e: "entry_bytes example_state 0 = ''hello world\<newline>''"
    "commands example_state = [''hello world\<newline>'', ''abc\<newline>'']"
    by code_simp+
  from read_single_entry [OF h] e show ?thesis
    by simp
qed

text \<open>
  C3. A completing write into a full ring frees the block of exactly one live entry: the
  one in slot \<open>in_offs\<close>, which is the oldest. Every other live entry keeps its block with
  its bytes, and when the ring is not full every live entry does. The slot is then
  overwritten by the new entry, and every offset that resolves in the new state resolves
  to an entry whose block is allocated, hence never to the freed block.
\<close>

theorem full_ring_releases_oldest:
  assumes inv: "dev_inv s" and filp: "private_data filp \<noteq> None"
    and env: "\<not> lock_interrupted env" "kmalloc_write_buffer env = Some wb"
      "kmalloc_grown env = Some nb" "kmalloc_fresh env s"
    and count: "count \<le> length ubytes"
    and d: "d < count" "ubytes ! d = CHR 0x0A" "CHR 0x0A \<notin> set (take d ubytes)"
  shows "\<exists>s'. aesd_write filp (Some ubytes) count f_pos env s = Some (Inr (d + 1), f_pos, s') \<and>
     (full (circular_buffer (aesd_device s)) \<longrightarrow>
        hd (live_slots (circular_buffer (aesd_device s))) = in_offs (circular_buffer (aesd_device s)) \<and>
        (\<exists>q. buffptr (entry (circular_buffer (aesd_device s)) !
                       in_offs (circular_buffer (aesd_device s))) = Some q \<and>
             kheap s q \<noteq> None \<and> kheap s' q = None)) \<and>
     (\<forall>j \<in> set (live_slots (circular_buffer (aesd_device s))).
        \<not> (full (circular_buffer (aesd_device s)) \<and> j = in_offs (circular_buffer (aesd_device s))) \<longrightarrow>
        (\<exists>a. buffptr (entry (circular_buffer (aesd_device s)) ! j) = Some a \<and>
             kheap s a \<noteq> None \<and> kheap s' a = kheap s a)) \<and>
     circular_buffer (aesd_device s') =
       aesd_circular_buffer_add_entry (circular_buffer (aesd_device s))
         \<lparr>buffptr = Some nb, size_entry = partial_write_size (aesd_device s) + d + 1\<rparr> \<and>
     (\<forall>off i o'.
        aesd_circular_buffer_find_entry_offset_for_fpos (circular_buffer (aesd_device s')) off =
          Some (i, o') \<longrightarrow>
        (\<exists>a. buffptr (entry (circular_buffer (aesd_device s')) ! i) = Some a \<and> kheap s' a \<noteq> None))"
proof -
  let ?b = "circular_buffer (aesd_device s)"
  let ?cmd = "pending s @ take (d + 1) ubytes"
  let ?s' = "completed s nb ?cmd"
  from env have nb: "kheap s nb = None"
    by (simp add: kmalloc_fresh_def)
  have io: "in_offs ?b < AESDCHAR_MAX_WRITE_OPERATIONS_SUPPORTED"
    using inv by (simp add: dev_inv_def Let_def)
  from count d(1) have len: "length ?cmd = partial_write_size (aesd_device s) + d + 1"
    by (simp add: pending_length [OF inv])
  then have ne: "?cmd \<noteq> []"
    by auto
  have w: "aesd_write filp (Some ubytes) count f_pos env s = Some (Inr (d + 1), f_pos, ?s')"
    by (rule aesd_write_completes [OF inv filp env count d])
  have oldest: "hd (live_slots ?b) = in_offs ?b \<and>
      (\<exists>q. buffptr (entry ?b ! in_offs ?b) = Some q \<and> kheap s q \<noteq> None \<and> kheap ?s' q = None)"
    if full: "full ?b"
  proof -
    from live_slots_hd [OF full io] have "hd (live_slots ?b) = in_offs ?b"
      by (metis list.sel(1))
    moreover from live_slot_facts(2) [OF inv oldest_entry [OF inv full]] obtain q where
      "buffptr (entry ?b ! in_offs ?b) = Some q" "kheap s q \<noteq> None"
      by auto
    moreover from this full have "kheap ?s' q = None"
      by (simp add: completed_def Let_def)
    ultimately show ?thesis by blast
  qed
  have others: "\<exists>a. buffptr (entry ?b ! j) = Some a \<and> kheap s a \<noteq> None \<and> kheap ?s' a = kheap s a"
    if j: "j \<in> set (live_slots ?b)" and not_old: "\<not> (full ?b \<and> j = in_offs ?b)" for j
  proof -
    have "j \<in> set (if full ?b then tl (live_slots ?b) else live_slots ?b)"
    proof (cases "full ?b")
      case True
      with not_old have "j \<noteq> in_offs ?b" by simp
      moreover from j live_slots_hd [OF True io]
      have "j = in_offs ?b \<or> j \<in> set (tl (live_slots ?b))"
        by (metis set_ConsD)
      ultimately show ?thesis using True by simp
    next
      case False
      with j show ?thesis by simp
    qed
    from completed_keeps(2) [OF inv nb this, of ?cmd] live_slot_facts(2) [OF inv j]
    show ?thesis by auto
  qed
  have b: "circular_buffer (aesd_device ?s') =
       aesd_circular_buffer_add_entry ?b
         \<lparr>buffptr = Some nb, size_entry = partial_write_size (aesd_device s) + d + 1\<rparr>"
    unfolding len [symmetric] by (simp add: completed_def Let_def)
  have inv': "dev_inv ?s'"
    by (rule completed_inv [OF inv nb ne])
  have res: "\<exists>a. buffptr (entry (circular_buffer (aesd_device ?s')) ! i) = Some a \<and> kheap ?s' a \<noteq> None"
    if "aesd_circular_buffer_find_entry_offset_for_fpos (circular_buffer (aesd_device ?s')) off =
          Some (i, o')" for off i o'
    using resolved_block_allocated [OF inv' that] .
  from w oldest others b res show ?thesis
    by blast
qed

theorem full_ring_releases_oldest_witness:
  "\<exists>s'. aesd_write example_filp (Some ''abc\<newline>def'') 7 0 (example_env (Some 21)) example_full =
          Some (Inr 4, 0, s') \<and>
        hd (live_slots (circular_buffer (aesd_device example_full))) = 3 \<and>
        buffptr (entry (circular_buffer (aesd_device example_full)) ! 3) = Some 3 \<and>
        kheap example_full 3 \<noteq> None \<and> kheap s' 3 = None \<and>
        kheap s' 4 = kheap example_full 4 \<and>
        aesd_circular_buffer_find_entry_offset_for_fpos (circular_buffer (aesd_device s')) 0 =
          Some (4, 0) \<and>
        kheap s' 4 \<noteq> None"
proof -
  let ?b = "circular_buffer (aesd_device example_full)"
  let ?b' = "aesd_circular_buffer_add_entry ?b
      \<lparr>buffptr = Some 21, size_entry = partial_write_size (aesd_device example_full) + 3 + 1\<rparr>"
  have h: "dev_inv example_full" "private_data example_filp \<noteq> None"
    "\<not> lock_interrupted (example_env (Some 21))"
    "kmalloc_write_buffer (example_env (Some 21)) = Some 20"
    "kmalloc_grown (example_env (Some 21)) = Some 21"
    "kmalloc_fresh (example_env (Some 21)) example_full"
    "7 \<le> length ''abc\<newline>def''" "(3::nat) < 7" "''abc\<newline>def'' ! 3 = CHR 0x0A"
    "CHR 0x0A \<notin> set (take 3 ''abc\<newline>def'')"
    by code_simp+
  have e: "full ?b" "in_offs ?b = 3" "buffptr (entry ?b ! 3) = Some 3"
    "4 \<in> set (live_slots ?b)" "buffptr (entry ?b ! 4) = Some 4"
    "aesd_circular_buffer_find_entry_offset_for_fpos ?b' 0 = Some (4, 0)"
    "buffptr (entry ?b' ! 4) = Some 4"
    by code_simp+
  from full_ring_releases_oldest [OF h, of 0] obtain s' where
    w: "aesd_write example_filp (Some ''abc\<newline>def'') 7 0 (example_env (Some 21)) example_full =
          Some (Inr (3 + 1), 0, s')"
    and old: "full ?b \<longrightarrow> hd (live_slots ?b) = in_offs ?b \<and>
        (\<exists>q. buffptr (entry ?b ! in_offs ?b) = Some q \<and> kheap example_full q \<noteq> None \<and>
             kheap s' q = None)"
    and others: "\<forall>j \<in> set (live_slots ?b). \<not> (full ?b \<and> j = in_offs ?b) \<longrightarrow>
        (\<exists>a. buffptr (entry ?b ! j) = Some a \<and> kheap example_full a \<noteq> None \<and>
             kheap s' a = kheap example_full a)"
    and b: "circular_buffer (aesd_device s') = ?b'"
    and res: "\<forall>off i o'.
        aesd_circular_buffer_find_entry_offset_for_fpos (circular_buffer (aesd_device s')) off =
          Some (i, o') \<longrightarrow>
        (\<exists>a. buffptr (entry (circular_buffer (aesd_device s')) ! i) = Some a \<and> kheap s' a \<noteq> None)"
    by blast
  from old e(1,2,3) have 1: "hd (live_slots ?b) = 3" "kheap example_full 3 \<noteq> None" "kheap s' 3 = None"
    by auto
  from others e(2,4,5) have 2: "kheap s' 4 = kheap example_full 4"
    by fastforce
  from b e(6) have 3: "aesd_circular_buffer_find_entry_offset_for_fpos
      (circular_buffer (aesd_device s')) 0 = Some (4, 0)"
    by simp
  from res [rule_format, OF 3] b e(7) have 4: "kheap s' 4 \<noteq> None"
    by simp
  from w 1 2 3 4 e(3) show ?thesis
    by auto
qed

text \<open>
  C4. A write of a non-empty chunk without newline (the lock taken, both allocations and
  the copy from the caller succeeding) returns \<open>count\<close>, leaves the ring and its commands
  as they were, and leaves as pending buffer the prior pending bytes followed by the
  whole chunk; \<open>partial_write_size\<close> grows by \<open>count\<close>.
\<close>

theorem write_without_delimiter:
  assumes inv: "dev_inv s" and filp: "private_data filp \<noteq> None"
    and env: "\<not> lock_interrupted env" "kmalloc_write_buffer env = Some wb"
      "kmalloc_grown env = Some nb" "kmalloc_fresh env s"
    and count: "0 < count" "count \<le> length ubytes"
    and nl: "CHR 0x0A \<notin> set (take count ubytes)"
  shows "\<exists>s'. aesd_write filp (Some ubytes) count f_pos env s = Some (Inr count, f_pos, s') \<and>
     circular_buffer (aesd_device s') = circular_buffer (aesd_device s) \<and>
     commands s' = commands s \<and>
     pending s' = pending s @ take count ubytes \<and>
     partial_write_size (aesd_device s') = partial_write_size (aesd_device s) + count"
proof -
  let ?bs = "pending s @ take count ubytes"
  let ?s' = "appended s nb ?bs"
  from env have nb: "kheap s nb = None"
    by (simp add: kmalloc_fresh_def)
  have w: "aesd_write filp (Some ubytes) count f_pos env s = Some (Inr count, f_pos, ?s')"
    by (rule aesd_write_appends [OF inv filp env count nl])
  from count have p: "partial_write_size (aesd_device ?s') = partial_write_size (aesd_device s) + count"
    by (simp add: appended_def Let_def pending_length [OF inv])
  from w appended_buffer [of s nb ?bs] appended_commands [OF inv nb, of ?bs]
    appended_pending [OF inv nb, of ?bs] p
  show ?thesis by blast
qed

theorem write_without_delimiter_witness:
  "\<exists>s'. aesd_write example_filp (Some ''fgh'') 3 0 (example_env (Some 21)) example_state =
          Some (Inr 3, 0, s') \<and>
        circular_buffer (aesd_device s') = circular_buffer (aesd_device example_state) \<and>
        commands s' = [''hello world\<newline>'', ''abc\<newline>''] \<and>
        pending s' = ''defgh'' \<and>
        partial_write_size (aesd_device s') = 5"
proof -
  have h: "dev_inv example_state" "private_data example_filp \<noteq> None"
    "\<not> lock_interrupted (example_env (Some 21))"
    "kmalloc_write_buffer (example_env (Some 21)) = Some 20"
    "kmalloc_grown (example_env (Some 21)) = Some 21"
    "kmalloc_fresh (example_env (Some 21)) example_state"
    "(0::nat) < 3" "3 \<le> length ''fgh''" "CHR 0x0A \<notin> set (take 3 ''fgh'')"
    by code_simp+
  have e: "commands example_state = [''hello world\<newline>'', ''abc\<newline>'']"
    "pending example_state = ''de''" "partial_write_size (aesd_device example_state) = 2"
    by code_simp+
  from write_without_delimiter [OF h, of 0] e show ?thesis
    by auto
qed

text \<open>
  C5. When the second \<^verbatim>\<open>kmalloc\<close> of a write (the buffer of the completed command, or
  the enlarged partial buffer) returns \<^verbatim>\<open>NULL\<close>, the write returns \<open>-ENOMEM\<close> and the
  whole state is as before the call: the pending buffer, the ring and the kernel memory
  (the copy of the chunk is freed again). This holds whether or not the chunk has a
  newline.
\<close>

theorem grown_buffer_allocation_fails:
  assumes filp: "private_data filp \<noteq> None"
    and env: "\<not> lock_interrupted env" "kmalloc_write_buffer env = Some wb" "kheap s wb = None"
      "kmalloc_grown env = None"
    and count: "0 < count" "count \<le> length ubytes"
  shows "aesd_write filp (Some ubytes) count f_pos env s = Some (Inl ENOMEM, f_pos, s)"
  by (rule aesd_write_nomem [OF assms])

theorem grown_buffer_allocation_fails_witness:
  "aesd_write example_filp (Some ''abc\<newline>def'') 7 0 (example_env None) example_state =
     Some (Inl ENOMEM, 0, example_state) \<and>
   aesd_write example_filp (Some ''fgh'') 3 0 (example_env None) example_state =
     Some (Inl ENOMEM, 0, example_state)"
proof -
  have h: "private_data example_filp \<noteq> None"
    "\<not> lock_interrupted (example_env None)"
    "kmalloc_write_buffer (example_env None) = Some 20"
    "kheap example_state 20 = None"
    "kmalloc_grown (example_env None) = None"
    by code_simp+
  have c: "(0::nat) < 7" "7 \<le> length ''abc\<newline>def''" "(0::nat) < 3" "3 \<le> length ''fgh''"
    by simp_all
  from grown_buffer_allocation_fails [OF h c(1,2), of 0]
    grown_buffer_allocation_fails [OF h c(3,4), of 0]
  show ?thesis by simp
qed

text \<open>
  C6. A read at an offset at or past the sum of the sizes of the live entries does not
  resolve to an entry; the call returns 0, not an error, and changes neither the state
  nor the caller's file position nor the caller's buffer.
\<close>

theorem read_past_end_is_eof:
  assumes filp: "private_data filp \<noteq> None"
    and past: "total_size (circular_buffer (aesd_device s)) \<le> size_t_of_loff_t f_pos"
  shows "aesd_circular_buffer_find_entry_offset_for_fpos (circular_buffer (aesd_device s))
           (size_t_of_loff_t f_pos) = None \<and>
         aesd_read filp (Some ubuf) count f_pos False s = Some (Inr 0, f_pos, Some ubuf, s)"
proof -
  from past have "aesd_circular_buffer_find_entry_offset_for_fpos (circular_buffer (aesd_device s))
           (size_t_of_loff_t f_pos) = None"
    by (simp add: find_entry_None)
  with filp show ?thesis
    by (simp add: aesd_read_def)
qed

theorem read_past_end_is_eof_witness:
  "aesd_circular_buffer_find_entry_offset_for_fpos (circular_buffer (aesd_device example_state))
     (size_t_of_loff_t 16) = None \<and>
   aesd_read example_filp (Some ''..........'') 10 16 False example_state =
     Some (Inr 0, 16, Some ''..........'', example_state)"
proof -
  have h: "private_data example_filp \<noteq> None"
    "total_size (circular_buffer (aesd_device example_state)) \<le> size_t_of_loff_t 16"
    by code_simp+
  from read_past_end_is_eof [OF h] show ?thesis .
qed

text \<open>
  C7. When \<^verbatim>\<open>mutex_lock_interruptible\<close> is interrupted, a read and a write (of at least
  one byte, so that the lock is asked for) return \<open>-ERESTARTSYS\<close>, which is neither
  \<open>-EFAULT\<close> nor \<open>-ENOMEM\<close>, and the state and the caller's file position are as before
  the call.
\<close>

theorem interrupted_lock_aborts:
  assumes filp: "private_data filp \<noteq> None"
  shows "aesd_read filp (Some ubuf) count f_pos True s = Some (Inl ERESTARTSYS, f_pos, Some ubuf, s) \<and>
     (0 < count \<and> lock_interrupted env \<longrightarrow>
        aesd_write filp (Some ubytes) count f_pos env s = Some (Inl ERESTARTSYS, f_pos, s)) \<and>
     ERESTARTSYS \<noteq> EFAULT \<and> ERESTARTSYS \<noteq> ENOMEM"
  using assms by (auto simp: aesd_read_def aesd_write_def)

theorem interrupted_lock_aborts_witness:
  "aesd_read example_filp (Some ''..........'') 7 0 True example_state =
     Some (Inl ERESTARTSYS, 0, Some ''..........'', example_state) \<and>
   aesd_write example_filp (Some ''abc\<newline>def'') 7 0
       \<lparr>lock_interrupted = True, kmalloc_write_buffer = Some 20, kmalloc_grown = Some 21\<rparr>
       example_state =
     Some (Inl ERESTARTSYS, 0, example_state)"
proof -
  have h: "private_data example_filp \<noteq> None"
    by code_simp
  from interrupted_lock_aborts [OF h, of "''..........''" 7 0 example_state
      "\<lparr>lock_interrupted = True, kmalloc_write_buffer = Some 20, kmalloc_grown = Some 21\<rparr>"
      "''abc\<newline>def''"]
  show ?thesis by simp
qed

text \<open>
  C8. Each live entry has a positive size, after every operation. In a well-formed state
  every live entry has positive size, and the state after \<^verbatim>\<open>aesd_init_module\<close> is
  well-formed. Every write, whatever it returns, returns (when \<^verbatim>\<open>kmalloc\<close> keeps its
  contract) in a well-formed state whose live entries all have positive size; a write of
  zero bytes changes nothing, so it adds no entry, and returns 0 when the caller's buffer
  is not null. A write whose chunk has its first newline at offset \<open>d\<close> adds one live
  entry, in slot \<open>in_offs\<close>, of size \<open>partial_write_size + d + 1\<close>, which is at least 1 and
  is the length of the bytes stored for it, and leaves the other live entries as they
  were. A read leaves the state as it is.
\<close>

theorem live_entries_have_positive_size:
  assumes inv: "dev_inv s"
  shows "(\<forall>i \<in> set (live_slots (circular_buffer (aesd_device s))).
            0 < size_entry (entry (circular_buffer (aesd_device s)) ! i)) \<and>
         (kmalloc_fresh env s \<longrightarrow>
            (\<exists>r s'. aesd_write filp buf count f_pos env s = Some (r, f_pos, s') \<and> dev_inv s' \<and>
               (\<forall>i \<in> set (live_slots (circular_buffer (aesd_device s'))).
                  0 < size_entry (entry (circular_buffer (aesd_device s')) ! i)) \<and>
               (count = 0 \<longrightarrow> s' = s \<and> (private_data filp \<noteq> None \<and> buf \<noteq> None \<longrightarrow> r = Inr 0)))) \<and>
         (kmalloc_fresh env s \<and> private_data filp \<noteq> None \<and> \<not> lock_interrupted env \<and>
          kmalloc_write_buffer env = Some wb \<and> kmalloc_grown env = Some nb \<and>
          count \<le> length ubytes \<and> d < count \<and> ubytes ! d = CHR 0x0A \<and>
          CHR 0x0A \<notin> set (take d ubytes) \<longrightarrow>
            (\<exists>s'. aesd_write filp (Some ubytes) count f_pos env s = Some (Inr (d + 1), f_pos, s') \<and>
               live_slots (circular_buffer (aesd_device s')) =
                 (if full (circular_buffer (aesd_device s))
                  then tl (live_slots (circular_buffer (aesd_device s)))
                  else live_slots (circular_buffer (aesd_device s))) @
                 [in_offs (circular_buffer (aesd_device s))] \<and>
               entry (circular_buffer (aesd_device s')) ! in_offs (circular_buffer (aesd_device s)) =
                 \<lparr>buffptr = Some nb,
                  size_entry = partial_write_size (aesd_device s) + d + 1\<rparr> \<and>
               length (entry_bytes s' (in_offs (circular_buffer (aesd_device s)))) =
                 partial_write_size (aesd_device s) + d + 1 \<and>
               1 \<le> size_entry (entry (circular_buffer (aesd_device s')) !
                        in_offs (circular_buffer (aesd_device s))) \<and>
               (\<forall>j \<in> set (if full (circular_buffer (aesd_device s))
                           then tl (live_slots (circular_buffer (aesd_device s)))
                           else live_slots (circular_buffer (aesd_device s))).
                  entry (circular_buffer (aesd_device s')) ! j =
                  entry (circular_buffer (aesd_device s)) ! j))) \<and>
         (\<exists>r p b. aesd_read filp buf count f_pos interrupted s = Some (r, p, b, s)) \<and>
         dev_inv \<lparr>aesd_device = aesd_init_module, kheap = h\<rparr>"
proof -
  let ?b = "circular_buffer (aesd_device s)"
  have 1: "\<forall>i \<in> set (live_slots ?b). 0 < size_entry (entry ?b ! i)"
    using live_slot_facts(2) [OF inv] by blast
  have 2: "\<exists>r s'. aesd_write filp buf count f_pos env s = Some (r, f_pos, s') \<and> dev_inv s' \<and>
               (\<forall>i \<in> set (live_slots (circular_buffer (aesd_device s'))).
                  0 < size_entry (entry (circular_buffer (aesd_device s')) ! i)) \<and>
               (count = 0 \<longrightarrow> s' = s \<and> (private_data filp \<noteq> None \<and> buf \<noteq> None \<longrightarrow> r = Inr 0))"
    if fresh: "kmalloc_fresh env s"
  proof -
    from aesd_write_inv [OF inv fresh, of filp buf count f_pos] obtain r s' where
      w: "aesd_write filp buf count f_pos env s = Some (r, f_pos, s')" and inv': "dev_inv s'"
      by blast
    have "\<forall>i \<in> set (live_slots (circular_buffer (aesd_device s'))).
        0 < size_entry (entry (circular_buffer (aesd_device s')) ! i)"
      using live_slot_facts(2) [OF inv'] by blast
    moreover have "s' = s \<and> (private_data filp \<noteq> None \<and> buf \<noteq> None \<longrightarrow> r = Inr 0)"
      if "count = 0"
      using w that by (auto simp: aesd_write_def split: if_splits)
    ultimately show ?thesis
      using w inv' by blast
  qed
  have 3: "\<exists>s'. aesd_write filp (Some ubytes) count f_pos env s = Some (Inr (d + 1), f_pos, s') \<and>
               live_slots (circular_buffer (aesd_device s')) =
                 (if full ?b then tl (live_slots ?b) else live_slots ?b) @ [in_offs ?b] \<and>
               entry (circular_buffer (aesd_device s')) ! in_offs ?b =
                 \<lparr>buffptr = Some nb,
                  size_entry = partial_write_size (aesd_device s) + d + 1\<rparr> \<and>
               length (entry_bytes s' (in_offs ?b)) = partial_write_size (aesd_device s) + d + 1 \<and>
               1 \<le> size_entry (entry (circular_buffer (aesd_device s')) ! in_offs ?b) \<and>
               (\<forall>j \<in> set (if full ?b then tl (live_slots ?b) else live_slots ?b).
                  entry (circular_buffer (aesd_device s')) ! j = entry ?b ! j)"
    if h: "kmalloc_fresh env s \<and> private_data filp \<noteq> None \<and> \<not> lock_interrupted env \<and>
          kmalloc_write_buffer env = Some wb \<and> kmalloc_grown env = Some nb \<and>
          count \<le> length ubytes \<and> d < count \<and> ubytes ! d = CHR 0x0A \<and>
          CHR 0x0A \<notin> set (take d ubytes)"
  proof -
    let ?cmd = "pending s @ take (d + 1) ubytes"
    let ?s' = "completed s nb ?cmd"
    from h have fresh: "kmalloc_fresh env s" and filp: "private_data filp \<noteq> None"
      and env: "\<not> lock_interrupted env" "kmalloc_write_buffer env = Some wb"
        "kmalloc_grown env = Some nb"
      and count: "count \<le> length ubytes"
      and d: "d < count" "ubytes ! d = CHR 0x0A" "CHR 0x0A \<notin> set (take d ubytes)"
      by simp_all
    from fresh env have nb: "kheap s nb = None"
      by (simp add: kmalloc_fresh_def)
    from count d(1) have len: "length ?cmd = partial_write_size (aesd_device s) + d + 1"
      by (simp add: pending_length [OF inv])
    have w: "aesd_write filp (Some ubytes) count f_pos env s = Some (Inr (d + 1), f_pos, ?s')"
      by (rule aesd_write_completes [OF inv filp env fresh count d])
    have l: "live_slots (circular_buffer (aesd_device ?s')) =
        (if full ?b then tl (live_slots ?b) else live_slots ?b) @ [in_offs ?b]"
      by (rule completed_live_slots [OF inv])
    have e: "entry (circular_buffer (aesd_device ?s')) ! in_offs ?b =
        \<lparr>buffptr = Some nb, size_entry = partial_write_size (aesd_device s) + d + 1\<rparr>"
      using completed_new(1) [OF inv nb, of ?cmd] len by simp
    have by_len: "length (entry_bytes ?s' (in_offs ?b)) = partial_write_size (aesd_device s) + d + 1"
      using e completed_new(2) [OF inv nb, of ?cmd] len
      by (simp add: entry_bytes_def Let_def bytes_at_def)
    from e have pos: "1 \<le> size_entry (entry (circular_buffer (aesd_device ?s')) ! in_offs ?b)"
      by simp
    have keep: "\<forall>j \<in> set (if full ?b then tl (live_slots ?b) else live_slots ?b).
        entry (circular_buffer (aesd_device ?s')) ! j = entry ?b ! j"
      using completed_keeps(1) [OF inv nb, of _ ?cmd] by blast
    from w l e by_len pos keep show ?thesis
      by blast
  qed
  have 4: "\<exists>r p b. aesd_read filp buf count f_pos interrupted s = Some (r, p, b, s)"
  proof -
    from aesd_read_defined [OF inv, of filp buf count f_pos interrupted] obtain r p b s' where
      "aesd_read filp buf count f_pos interrupted s = Some (r, p, b, s')"
      by (cases "aesd_read filp buf count f_pos interrupted s") auto
    with aesd_read_frame(1) [OF this] show ?thesis by blast
  qed
  from 1 2 3 4 init_inv [of h] show ?thesis
    by blast
qed

theorem live_entries_have_positive_size_witness:
  "live_slots (circular_buffer (aesd_device example_state)) = [0, 1] \<and>
   0 < size_entry (entry (circular_buffer (aesd_device example_state)) ! 0) \<and>
   0 < size_entry (entry (circular_buffer (aesd_device example_state)) ! 1) \<and>
   (\<exists>s'. aesd_write example_filp (Some ''abc\<newline>def'') 7 0 (example_env (Some 21)) example_state =
            Some (Inr 4, 0, s') \<and>
          dev_inv s' \<and>
          live_slots (circular_buffer (aesd_device s')) = [0, 1, 2] \<and>
          entry (circular_buffer (aesd_device s')) ! 0 = \<lparr>buffptr = Some 2, size_entry = 12\<rparr> \<and>
          entry (circular_buffer (aesd_device s')) ! 1 = \<lparr>buffptr = Some 1, size_entry = 4\<rparr> \<and>
          entry (circular_buffer (aesd_device s')) ! 2 = \<lparr>buffptr = Some 21, size_entry = 6\<rparr> \<and>
          length (entry_bytes s' 2) = 6) \<and>
   aesd_write example_filp (Some ''abc\<newline>def'') 0 0 (example_env (Some 21)) example_state =
     Some (Inr 0, 0, example_state)"
proof -
  let ?b = "circular_buffer (aesd_device example_state)"
  have h: "dev_inv example_state" "kmalloc_fresh (example_env (Some 21)) example_state"
    "private_data example_filp \<noteq> None"
    by code_simp+
  have c: "\<not> lock_interrupted (example_env (Some 21))"
    "kmalloc_write_buffer (example_env (Some 21)) = Some 20"
    "kmalloc_grown (example_env (Some 21)) = Some 21"
    "7 \<le> length ''abc\<newline>def''" "(3::nat) < 7" "''abc\<newline>def'' ! 3 = CHR 0x0A"
    "CHR 0x0A \<notin> set (take 3 ''abc\<newline>def'')"
    by code_simp+
  have e: "live_slots ?b = [0, 1]" "\<not> full ?b" "in_offs ?b = 2"
    "partial_write_size (aesd_device example_state) = 2"
    "entry ?b ! 0 = \<lparr>buffptr = Some 2, size_entry = 12\<rparr>"
    "entry ?b ! 1 = \<lparr>buffptr = Some 1, size_entry = 4\<rparr>"
    by code_simp+
  note t = live_entries_have_positive_size [OF h(1), of "example_env (Some 21)" example_filp
      "Some ''abc\<newline>def''" 7 0 20 21 "''abc\<newline>def''" 3 False Map.empty]
  from t e(1) have 1: "0 < size_entry (entry ?b ! 0)" "0 < size_entry (entry ?b ! 1)"
    by simp_all
  from t h c obtain s' where
    w: "aesd_write example_filp (Some ''abc\<newline>def'') 7 0 (example_env (Some 21)) example_state =
          Some (Inr (3 + 1), 0, s')"
    and l: "live_slots (circular_buffer (aesd_device s')) =
        (if full ?b then tl (live_slots ?b) else live_slots ?b) @ [in_offs ?b]"
    and n: "entry (circular_buffer (aesd_device s')) ! in_offs ?b =
        \<lparr>buffptr = Some 21, size_entry = partial_write_size (aesd_device example_state) + 3 + 1\<rparr>"
    and bl: "length (entry_bytes s' (in_offs ?b)) =
        partial_write_size (aesd_device example_state) + 3 + 1"
    and k: "\<forall>j \<in> set (if full ?b then tl (live_slots ?b) else live_slots ?b).
        entry (circular_buffer (aesd_device s')) ! j = entry ?b ! j"
    by blast
  from t h(2) w have inv': "dev_inv s'"
    by auto
  from l e have l': "live_slots (circular_buffer (aesd_device s')) = [0, 1, 2]"
    by simp
  from k e have k': "entry (circular_buffer (aesd_device s')) ! 0 = \<lparr>buffptr = Some 2, size_entry = 12\<rparr>"
    "entry (circular_buffer (aesd_device s')) ! 1 = \<lparr>buffptr = Some 1, size_entry = 4\<rparr>"
    by simp_all
  from n bl e have n': "entry (circular_buffer (aesd_device s')) ! 2 = \<lparr>buffptr = Some 21, size_entry = 6\<rparr>"
    "length (entry_bytes s' 2) = 6"
    by simp_all
  from live_entries_have_positive_size [OF h(1), of "example_env (Some 21)" example_filp
      "Some ''abc\<newline>def''" 0 0 20 21 "''abc\<newline>def''" 3 False Map.empty] h(2,3)
  have 3: "aesd_write example_filp (Some ''abc\<newline>def'') 0 0 (example_env (Some 21)) example_state =
     Some (Inr 0, 0, example_state)"
    by auto
  from e(1) 1 w inv' l' k' n' 3 show ?thesis
    by auto
qed

text \<open>
  C9. A read or a write with a null caller buffer returns \<open>-EFAULT\<close> with the state and the
  file position unchanged, whatever the lock and the allocator would have done: the check
  comes before both. \<open>-EFAULT\<close> is not a value of its own for an invalid argument: a write
  whose copy from the caller fails returns it too.
\<close>

theorem null_buffer_rejected:
  "aesd_read filp None count f_pos interrupted s = Some (Inl EFAULT, f_pos, None, s) \<and>
   aesd_write filp None count f_pos env s = Some (Inl EFAULT, f_pos, s) \<and>
   (private_data filp \<noteq> None \<and> \<not> lock_interrupted env \<and>
    kmalloc_write_buffer env = Some wb \<and> kheap s wb = None \<and> length ubytes < count \<longrightarrow>
      aesd_write filp (Some ubytes) count f_pos env s = Some (Inl EFAULT, f_pos, s))"
proof -
  have "aesd_read filp None count f_pos interrupted s = Some (Inl EFAULT, f_pos, None, s)"
    by (simp add: aesd_read_def)
  moreover have "aesd_write filp None count f_pos env s = Some (Inl EFAULT, f_pos, s)"
    by (simp add: aesd_write_def)
  moreover have "aesd_write filp (Some ubytes) count f_pos env s = Some (Inl EFAULT, f_pos, s)"
    if "private_data filp \<noteq> None \<and> \<not> lock_interrupted env \<and>
        kmalloc_write_buffer env = Some wb \<and> kheap s wb = None \<and> length ubytes < count"
    using that aesd_write_fault [of filp env wb s ubytes count f_pos] by blast
  ultimately show ?thesis by blast
qed

theorem null_buffer_rejected_witness:
  "aesd_read example_filp None 7 0 True example_state = Some (Inl EFAULT, 0, None, example_state) \<and>
   aesd_write example_filp None 7 0 (example_env None) example_state =
     Some (Inl EFAULT, 0, example_state) \<and>
   aesd_write example_filp (Some ''abc'') 7 0 (example_env None) example_state =
     Some (Inl EFAULT, 0, example_state)"
proof -
  have "private_data example_filp \<noteq> None \<and> \<not> lock_interrupted (example_env None) \<and>
    kmalloc_write_buffer (example_env None) = Some 20 \<and> kheap example_state 20 = None \<and>
    length ''abc'' < 7"
    by code_simp
  with null_buffer_rejected [of example_filp 7 0 True example_state "example_env None" 20 "''abc''"]
  show ?thesis by blast
qed

text \<open>
  As worded in the spec, the rejection of a null buffer surfaces \<open>InvalidArgument\<close>, an
  error listed apart from \<open>TransferFault\<close>. No naming of the driver's values gives that:
  the write with a null buffer and the write whose copy from the caller fails (7 bytes
  asked for, 3 readable) return the same value.
\<close>

theorem null_buffer_error_counterexample:
  "\<not> (\<exists>name :: errno \<Rightarrow> spec_error.
        surfaced_error name
          (aesd_write example_filp None 7 0 (example_env None) example_state) =
          Some InvalidArgument \<and>
        surfaced_error name
          (aesd_write example_filp (Some ''abc'') 7 0 (example_env None) example_state) =
          Some TransferFault)"
proof
  assume "\<exists>name :: errno \<Rightarrow> spec_error.
        surfaced_error name
          (aesd_write example_filp None 7 0 (example_env None) example_state) =
          Some InvalidArgument \<and>
        surfaced_error name
          (aesd_write example_filp (Some ''abc'') 7 0 (example_env None) example_state) =
          Some TransferFault"
  then obtain name :: "errno \<Rightarrow> spec_error" where
    a: "surfaced_error name
          (aesd_write example_filp None 7 0 (example_env None) example_state) =
          Some InvalidArgument"
    and b: "surfaced_error name
          (aesd_write example_filp (Some ''abc'') 7 0 (example_env None) example_state) =
          Some TransferFault"
    by blast
  have null: "aesd_write example_filp None 7 0 (example_env None) example_state =
      Some (Inl EFAULT, 0, example_state)"
    by (simp add: aesd_write_def)
  have "private_data example_filp \<noteq> None" "\<not> lock_interrupted (example_env None)"
    "kmalloc_write_buffer (example_env None) = Some 20" "kheap example_state 20 = None"
    "length ''abc'' < 7"
    by code_simp+
  then have fault: "aesd_write example_filp (Some ''abc'') 7 0 (example_env None) example_state =
      Some (Inl EFAULT, 0, example_state)"
    by (rule aesd_write_fault)
  from a null have "name EFAULT = InvalidArgument"
    by (simp add: surfaced_error_def)
  moreover from b fault have "name EFAULT = TransferFault"
    by (simp add: surfaced_error_def)
  ultimately show False by simp
qed



end
